theory Spec2Isabelle
  imports Main "HOL-Library.Word"
begin

section \<open>Bytes and errors\<close>

type_synonym byte = "8 word"
type_synonym bytes = "byte list"

text \<open>
  Everything the modelled code can throw. \<open>NoiseError\<close> is the class thrown by
  \<^verbatim>\<open>noise-socket.js\<close>; \<open>AeadTagFailure\<close> and \<open>HandshakeFailure\<close> stand for what the
  noise state machine throws; \<open>RangeError\<close> is Node's error for a value or an offset a
  \<^verbatim>\<open>Buffer\<close> accessor cannot take; \<open>PayloadTooLarge\<close>, \<open>UnexpectedMessage\<close>,
  \<open>MalformedInit\<close> and \<open>UnknownRequiredFeature\<close> are error kinds the specification names.
\<close>

datatype error =
    NoiseError
  | AeadTagFailure
  | HandshakeFailure
  | RangeError
  | PayloadTooLarge
  | UnexpectedMessage
  | MalformedInit
  | UnknownRequiredFeature

section \<open>NoiseSocket (noise-socket.js)\<close>

datatype read_state =
    PENDING
  | AWAITING_HANDSHAKE_REPLY
  | READY_FOR_LEN
  | READY_FOR_BODY
  | BLOCKED

text \<open>
  The private field \<^verbatim>\<open>_l\<close> is never assigned by the constructor (it starts out
  \<^verbatim>\<open>undefined\<close>), holds a number after \<^verbatim>\<open>_processPacketLength\<close> and is set to
  \<^verbatim>\<open>null\<close> by \<^verbatim>\<open>_processPacketBody\<close>.
\<close>

datatype js_len = Undefined | Null | Num nat

text \<open>
  The noise state machine (\<^verbatim>\<open>opts.noiseState\<close>) is a collaborator whose class is not
  part of the sources, so its methods are parameters of the model. A method call returns
  a value or throws, and in both cases may have changed the noise state (keys, nonces).
\<close>

record 'n noise_ops =
  initiatorAct1 :: "'n \<Rightarrow> (error + bytes) \<times> 'n"
  initiatorAct2 :: "'n \<Rightarrow> bytes \<Rightarrow> (error + unit) \<times> 'n"
  initiatorAct3 :: "'n \<Rightarrow> (error + bytes) \<times> 'n"
  decryptLength :: "'n \<Rightarrow> bytes \<Rightarrow> (error + nat) \<times> 'n"
  decryptMessage :: "'n \<Rightarrow> bytes \<Rightarrow> (error + bytes) \<times> 'n"
  encryptMessage :: "'n \<Rightarrow> bytes \<Rightarrow> (error + bytes) \<times> 'n"

text \<open>
  The events the NoiseSocket emits. Listeners are taken to return normally.
\<close>

datatype event =
    Connect
  | Ready
  | Close
  | ErrorEvent error
  | Drain
  | End
  | Lookup
  | Timeout

text \<open>
  What the socket does to the outside, and each assignment to \<^verbatim>\<open>_readState\<close>, in the
  order in which the code does it: the order is what some of the properties below are
  about. \<open>Push m ok\<close> is a call \<^verbatim>\<open>this.push(m)\<close> that returned \<open>ok\<close>; \<open>Uncaught e\<close> is
  a handler that threw \<open>e\<close> back to the event loop.
\<close>

datatype action =
    Emit event
  | SocketWrite bytes
  | SocketEnd
  | Push bytes bool
  | SetReadState read_state
  | Uncaught error

text \<open>
  The object's fields, together with the parts of Node's streams and event emitter the
  code relies on:
  \<^item> \<open>rbuf\<close> is the wrapped socket's readable buffer (bytes received and not yet read)
    and \<open>ended\<close> tells that the peer has ended the stream, so that no more bytes come;
  \<^item> \<open>errorListener\<close> tells whether a listener for \<^verbatim>\<open>error\<close> is registered on the
    NoiseSocket;
  \<^item> \<open>writing\<close> and \<open>writeBuffer\<close> are the state of the Duplex's writable side: a call of
    \<^verbatim>\<open>_write\<close> is pending, and the chunks written meanwhile wait in the buffer;
  \<^item> \<open>endCallbacks\<close> counts the callbacks handed to \<^verbatim>\<open>socket.end\<close> that have not run yet.
\<close>

record 'n noise_socket =
  readState :: read_state
  lenCache :: js_len
  noiseState :: 'n
  initiator :: bool
  messagesReceived :: nat
  rbuf :: bytes
  ended :: bool
  errorListener :: bool
  writing :: bool
  writeBuffer :: "bytes list"
  endCallbacks :: nat
  trace :: "action list"

text \<open>
  The constructor: \<^verbatim>\<open>_readState = PENDING\<close>, \<^verbatim>\<open>messagesReceived = 0\<close>; no listener is
  registered yet and nothing has been written.
\<close>

definition new_socket :: "'n \<Rightarrow> bool \<Rightarrow> 'n noise_socket" where
  "new_socket ns ini =
     \<lparr> readState = PENDING, lenCache = Undefined, noiseState = ns, initiator = ini,
       messagesReceived = 0, rbuf = [], ended = False, errorListener = False,
       writing = False, writeBuffer = [], endCallbacks = 0, trace = [] \<rparr>"

text \<open>\<^verbatim>\<open>on('error', listener)\<close>, called by the owner of the NoiseSocket.\<close>

definition add_error_listener :: "'n noise_socket \<Rightarrow> 'n noise_socket" where
  "add_error_listener s = s\<lparr>errorListener := True\<rparr>"

text \<open>
  \<^verbatim>\<open>socket.read(n)\<close> of an open stream in paused mode: the first \<open>n\<close> buffered bytes, or
  \<^verbatim>\<open>null\<close> when fewer are buffered (and for \<open>n = 0\<close>). \<^verbatim>\<open>socket.read(NaN)\<close> is what
  \<^verbatim>\<open>undefined + 16\<close> asks for: it returns the whole buffer, or \<^verbatim>\<open>null\<close> when it is empty.
\<close>

definition socket_read :: "nat \<Rightarrow> bytes \<Rightarrow> (bytes \<times> bytes) option" where
  "socket_read n buf =
     (if 0 < n \<and> n \<le> length buf then Some (take n buf, drop n buf) else None)"

definition socket_read_all :: "bytes \<Rightarrow> (bytes \<times> bytes) option" where
  "socket_read_all buf = (if buf = [] then None else Some (buf, []))"

text \<open>
  \<^verbatim>\<open>this._socket.read(n)\<close> as the handlers call it. Once the stream has ended, a read that
  asks for more than is buffered returns the bytes that are left instead of \<^verbatim>\<open>null\<close>.
\<close>

definition stream_read :: "nat \<Rightarrow> 'n noise_socket \<Rightarrow> (bytes \<times> bytes) option" where
  "stream_read n s =
     (if ended s \<and> 0 < n \<and> length (rbuf s) < n \<and> rbuf s \<noteq> [] then Some (rbuf s, [])
      else socket_read n (rbuf s))"

text \<open>
  The listeners of an event are called and return; \<^verbatim>\<open>this.emit(ev)\<close> of an event other
  than \<^verbatim>\<open>error\<close> is this.
\<close>

definition notify :: "event \<Rightarrow> 'n noise_socket \<Rightarrow> 'n noise_socket" where
  "notify ev s = s\<lparr>trace := trace s @ [Emit ev]\<rparr>"

definition socket_write :: "bytes \<Rightarrow> 'n noise_socket \<Rightarrow> 'n noise_socket" where
  "socket_write m s = s\<lparr>trace := trace s @ [SocketWrite m]\<rparr>"

definition set_readState :: "read_state \<Rightarrow> 'n noise_socket \<Rightarrow> 'n noise_socket" where
  "set_readState rs s = s\<lparr>readState := rs, trace := trace s @ [SetReadState rs]\<rparr>"

text \<open>The payloads handed to \<^verbatim>\<open>this.push\<close> so far, oldest first.\<close>

fun payloads :: "action list \<Rightarrow> bytes list" where
  "payloads [] = []"
| "payloads (Push m ok # as) = m # payloads as"
| "payloads (a # as) = payloads as"

definition pushed :: "'n noise_socket \<Rightarrow> bytes list" where
  "pushed s = payloads (trace s)"

text \<open>
  One pass of the \<^verbatim>\<open>do ... while (readMore)\<close> loop ends in one of three ways: the
  handler returned \<^verbatim>\<open>true\<close> (\<open>Continue\<close>), it returned \<^verbatim>\<open>false\<close> or \<^verbatim>\<open>undefined\<close>
  (\<open>Stop\<close>), or it threw (\<open>Raise\<close>, with the state at the throw).
\<close>

datatype 'n outcome =
    Continue "'n noise_socket"
  | Stop "'n noise_socket"
  | Raise error "'n noise_socket"

text \<open>A finished handler: it returned, or it threw.\<close>

datatype 'n finished =
    Done "'n noise_socket"
  | Raised error "'n noise_socket"

text \<open>
  \<^verbatim>\<open>this.emit(ev)\<close>. The listeners are called and the call returns, except that an
  \<^verbatim>\<open>error\<close> event without a listener is thrown by \<^verbatim>\<open>emit\<close> itself.
\<close>

definition emit :: "event \<Rightarrow> 'n noise_socket \<Rightarrow> 'n finished" where
  "emit ev s =
     (case ev of
        ErrorEvent e \<Rightarrow> (if errorListener s then Done (notify ev s) else Raised e s)
      | _ \<Rightarrow> Done (notify ev s))"

text \<open>
  A handler the event loop called: what it throws is caught by nobody.
\<close>

definition uncaught :: "error \<Rightarrow> 'n noise_socket \<Rightarrow> 'n noise_socket" where
  "uncaught e s = s\<lparr>trace := trace s @ [Uncaught e]\<rparr>"

fun settle :: "'n finished \<Rightarrow> 'n noise_socket" where
  "settle (Done s) = s"
| "settle (Raised e s) = uncaught e s"

text \<open>\<^verbatim>\<open>end()\<close>: \<^verbatim>\<open>this._socket.end(() => this.emit('close'))\<close>.\<close>

definition end_socket :: "'n noise_socket \<Rightarrow> 'n noise_socket" where
  "end_socket s = s\<lparr>trace := trace s @ [SocketEnd], endCallbacks := endCallbacks s + 1\<rparr>"

text \<open>
  \<^verbatim>\<open>_terminate(err)\<close>: \<^verbatim>\<open>if (err) this.emit('error', err); this.end();\<close> When \<^verbatim>\<open>emit\<close>
  throws, \<^verbatim>\<open>this.end()\<close> is not reached.
\<close>

definition terminate :: "error option \<Rightarrow> 'n noise_socket \<Rightarrow> 'n finished" where
  "terminate err s =
     (case err of
        None \<Rightarrow> Done (end_socket s)
      | Some e \<Rightarrow>
          (case emit (ErrorEvent e) s of
             Raised e' s' \<Rightarrow> Raised e' s'
           | Done s' \<Rightarrow> Done (end_socket s')))"

text \<open>
  The writable side of the wrapped socket has finished (what was written is flushed):
  Node then runs the callbacks given to \<^verbatim>\<open>socket.end\<close>, each of which emits
  \<^verbatim>\<open>close\<close>. The socket itself may still be open.
\<close>

definition socket_finished :: "'n noise_socket \<Rightarrow> 'n noise_socket" where
  "socket_finished s =
     s\<lparr>trace := trace s @ replicate (endCallbacks s) (Emit Close), endCallbacks := 0\<rparr>"

text \<open>
  The constructor forwards the wrapped socket's \<^verbatim>\<open>close\<close>, \<^verbatim>\<open>drain\<close>, \<^verbatim>\<open>end\<close>,
  \<^verbatim>\<open>error\<close>, \<^verbatim>\<open>lookup\<close>, \<^verbatim>\<open>ready\<close> and \<^verbatim>\<open>timeout\<close> events: each is emitted again.
\<close>

definition onSocketEvent :: "event \<Rightarrow> 'n noise_socket \<Rightarrow> 'n noise_socket" where
  "onSocketEvent ev s = settle (emit ev s)"

definition initiateHandshake :: "'n noise_ops \<Rightarrow> 'n noise_socket \<Rightarrow> 'n finished" where
  "initiateHandshake ops s =
     (case initiatorAct1 ops (noiseState s) of
        (Inl e, n1) \<Rightarrow> Raised e (s\<lparr>noiseState := n1\<rparr>)
      | (Inr m, n1) \<Rightarrow>
          Done (set_readState AWAITING_HANDSHAKE_REPLY (socket_write m (s\<lparr>noiseState := n1\<rparr>))))"

definition onConnected :: "'n noise_ops \<Rightarrow> 'n noise_socket \<Rightarrow> 'n noise_socket" where
  "onConnected ops s =
     (if initiator s then
        (case initiateHandshake ops s of
           Done s' \<Rightarrow> s'
         | Raised e s' \<Rightarrow> settle (terminate (Some e) s'))
      else s)"

definition processHandshakeReply :: "'n noise_ops \<Rightarrow> 'n noise_socket \<Rightarrow> 'n outcome" where
  "processHandshakeReply ops s =
     (case stream_read 50 s of
        None \<Rightarrow> Stop s
      | Some (m, rest) \<Rightarrow>
          (case initiatorAct2 ops (noiseState s) m of
             (Inl e, n1) \<Rightarrow> Raise e (s\<lparr>rbuf := rest, noiseState := n1\<rparr>)
           | (Inr u, n1) \<Rightarrow>
               (case initiatorAct3 ops n1 of
                  (Inl e, n2) \<Rightarrow> Raise e (s\<lparr>rbuf := rest, noiseState := n2\<rparr>)
                | (Inr m3, n2) \<Rightarrow>
                    Continue
                      (notify Ready (notify Connect (set_readState READY_FOR_LEN
                        (socket_write m3 (s\<lparr>rbuf := rest, noiseState := n2\<rparr>))))))))"

definition processPacketLength :: "'n noise_ops \<Rightarrow> 'n noise_socket \<Rightarrow> 'n outcome" where
  "processPacketLength ops s =
     (case stream_read (2 + 16) s of
        None \<Rightarrow> Stop s
      | Some (lc, rest) \<Rightarrow>
          (case decryptLength ops (noiseState s) lc of
             (Inl e, n1) \<Rightarrow> Raise e (s\<lparr>rbuf := rest, noiseState := n1\<rparr>)
           | (Inr len, n1) \<Rightarrow>
               Continue
                 (set_readState READY_FOR_BODY
                   (s\<lparr>rbuf := rest, noiseState := n1, lenCache := Num len\<rparr>))))"

text \<open>
  \<^verbatim>\<open>this._socket.read(this._l + MESSAGE_MAC_BYTES)\<close>: a number plus 16, \<^verbatim>\<open>null + 16 = 16\<close>,
  \<^verbatim>\<open>undefined + 16 = NaN\<close>.
\<close>

definition read_body :: "js_len \<Rightarrow> 'n noise_socket \<Rightarrow> (bytes \<times> bytes) option" where
  "read_body len s =
     (case len of
        Num n \<Rightarrow> stream_read (n + 16) s
      | Null \<Rightarrow> stream_read 16 s
      | Undefined \<Rightarrow> socket_read_all (rbuf s))"

text \<open>
  The consumer's side of \<^verbatim>\<open>this.push(m)\<close> is the parameter \<open>acc\<close>: the answer of the
  push, given every payload pushed so far, this one included.
\<close>

definition processPacketBody ::
  "'n noise_ops \<Rightarrow> (bytes list \<Rightarrow> bool) \<Rightarrow> 'n noise_socket \<Rightarrow> 'n outcome" where
  "processPacketBody ops acc s =
     (case read_body (lenCache s) s of
        None \<Rightarrow> Stop s
      | Some (c, rest) \<Rightarrow>
          (case decryptMessage ops (noiseState s) c of
             (Inl e, n1) \<Rightarrow> Raise e (s\<lparr>rbuf := rest, noiseState := n1\<rparr>)
           | (Inr m, n1) \<Rightarrow>
               (let pushOk = acc (pushed s @ [m]);
                    s1 = s\<lparr>rbuf := rest, noiseState := n1, lenCache := Null,
                           messagesReceived := messagesReceived s + 1,
                           trace := trace s @ [Push m pushOk]\<rparr>
                in if pushOk then Continue (set_readState READY_FOR_LEN s1)
                   else Stop (set_readState BLOCKED s1))))"

text \<open>
  The \<^verbatim>\<open>switch\<close> of \<^verbatim>\<open>_onData\<close>: one pass of its loop. The \<^verbatim>\<open>default\<close> branch, which
  throws for an unknown state, has no counterpart: \<^verbatim>\<open>_readState\<close> only ever holds one of
  the five values of \<^verbatim>\<open>READ_STATE\<close>.
\<close>

definition step ::
  "'n noise_ops \<Rightarrow> (bytes list \<Rightarrow> bool) \<Rightarrow> 'n noise_socket \<Rightarrow> 'n outcome" where
  "step ops acc s =
     (case readState s of
        PENDING \<Rightarrow> Stop s
      | AWAITING_HANDSHAKE_REPLY \<Rightarrow> processHandshakeReply ops s
      | READY_FOR_LEN \<Rightarrow> processPacketLength ops s
      | READY_FOR_BODY \<Rightarrow> processPacketBody ops acc s
      | BLOCKED \<Rightarrow> Stop s)"

text \<open>
  The loop of \<^verbatim>\<open>_onData\<close>. Every pass that asks for another one has read at least one
  byte off the socket, so the loop ends.
\<close>

function loop ::
  "'n noise_ops \<Rightarrow> (bytes list \<Rightarrow> bool) \<Rightarrow> 'n noise_socket \<Rightarrow> 'n finished" where
  "loop ops acc s =
     (case step ops acc s of
        Continue s' \<Rightarrow> loop ops acc s'
      | Stop s' \<Rightarrow> Done s'
      | Raise e s' \<Rightarrow> Raised e s')"
  by pat_completeness auto
termination
proof (relation "measure (\<lambda>(ops, acc, s). length (rbuf s))")
  show "wf (measure (\<lambda>(ops :: 'n noise_ops, acc :: bytes list \<Rightarrow> bool, s :: 'n noise_socket).
          length (rbuf s)))"
    by simp
next
  fix ops :: "'n noise_ops" and acc :: "bytes list \<Rightarrow> bool" and s s' :: "'n noise_socket"
  assume "step ops acc s = Continue s'"
  then have "length (rbuf s') < length (rbuf s)"
    by (auto simp: step_def processHandshakeReply_def processPacketLength_def
          processPacketBody_def read_body_def stream_read_def socket_read_def
          socket_read_all_def set_readState_def emit_def notify_def socket_write_def Let_def
        split: read_state.splits option.splits prod.splits sum.splits if_splits js_len.splits)
  then show "((ops, acc, s'), (ops, acc, s)) \<in> measure (\<lambda>(ops, acc, s). length (rbuf s))"
    by simp
qed

declare loop.simps [simp del]

text \<open>
  \<^verbatim>\<open>_onData\<close>: the loop inside \<^verbatim>\<open>try\<close>, and \<^verbatim>\<open>_terminate(err)\<close> in the \<^verbatim>\<open>catch\<close>.
  The event loop calls it, so what \<^verbatim>\<open>_terminate\<close> throws is caught by nobody.
\<close>

definition onData ::
  "'n noise_ops \<Rightarrow> (bytes list \<Rightarrow> bool) \<Rightarrow> 'n noise_socket \<Rightarrow> 'n noise_socket" where
  "onData ops acc s =
     (case loop ops acc s of
        Done s' \<Rightarrow> s'
      | Raised e s' \<Rightarrow> settle (terminate (Some e) s'))"

text \<open>Whether \<^verbatim>\<open>_onData\<close> ends in its \<^verbatim>\<open>catch\<close> block.\<close>

definition raises :: "'n noise_ops \<Rightarrow> (bytes list \<Rightarrow> bool) \<Rightarrow> 'n noise_socket \<Rightarrow> bool" where
  "raises ops acc s = (case loop ops acc s of Done s' \<Rightarrow> False | Raised e s' \<Rightarrow> True)"

text \<open>
  The wrapped socket received \<open>chunk\<close>: the bytes join its readable buffer and its
  \<^verbatim>\<open>readable\<close> event calls \<^verbatim>\<open>_onData\<close>.
\<close>

definition feed :: "bytes \<Rightarrow> 'n noise_socket \<Rightarrow> 'n noise_socket" where
  "feed chunk s = s\<lparr>rbuf := rbuf s @ chunk\<rparr>"

definition onReadable ::
  "'n noise_ops \<Rightarrow> (bytes list \<Rightarrow> bool) \<Rightarrow> bytes \<Rightarrow> 'n noise_socket \<Rightarrow> 'n noise_socket" where
  "onReadable ops acc chunk s = onData ops acc (feed chunk s)"

text \<open>
  The peer has ended the stream: the wrapped socket's readable side is marked as ended
  and its \<^verbatim>\<open>readable\<close> event calls \<^verbatim>\<open>_onData\<close> once more.
\<close>

definition onEnd ::
  "'n noise_ops \<Rightarrow> (bytes list \<Rightarrow> bool) \<Rightarrow> 'n noise_socket \<Rightarrow> 'n noise_socket" where
  "onEnd ops acc s = onData ops acc (s\<lparr>ended := True\<rparr>)"

text \<open>
  \<^verbatim>\<open>_read()\<close>: the assignment that unblocks, then the \<^verbatim>\<open>_onData\<close> call it schedules with
  \<^verbatim>\<open>setImmediate\<close>.
\<close>

definition read_unblock :: "'n noise_socket \<Rightarrow> 'n noise_socket" where
  "read_unblock s = (if readState s = BLOCKED then set_readState READY_FOR_LEN s else s)"

definition read_op ::
  "'n noise_ops \<Rightarrow> (bytes list \<Rightarrow> bool) \<Rightarrow> 'n noise_socket \<Rightarrow> 'n noise_socket" where
  "read_op ops acc s = onData ops acc (read_unblock s)"

text \<open>
  \<^verbatim>\<open>_write(data)\<close>: \<^verbatim>\<open>encryptMessage\<close>, then \<^verbatim>\<open>socket.write\<close>. Nothing catches what
  \<^verbatim>\<open>encryptMessage\<close> throws. The method takes one parameter: the callback Node passes
  as the third argument is never called.
\<close>

definition private_write :: "'n noise_ops \<Rightarrow> bytes \<Rightarrow> 'n noise_socket \<Rightarrow> 'n finished" where
  "private_write ops data s =
     (case encryptMessage ops (noiseState s) data of
        (Inl e, n1) \<Rightarrow> Raised e (s\<lparr>noiseState := n1\<rparr>)
      | (Inr c, n1) \<Rightarrow> Done (socket_write c (s\<lparr>noiseState := n1\<rparr>)))"

text \<open>
  \<^verbatim>\<open>write(data)\<close>, the method the Duplex inherits and the owner calls. Node hands a chunk
  to \<^verbatim>\<open>_write\<close> only while no earlier call of \<^verbatim>\<open>_write\<close> is pending, and a call is
  pending until it calls its callback; a chunk written meanwhile is buffered. Since
  \<^verbatim>\<open>_write\<close> never calls the callback, the first call stays pending.
\<close>

definition write_op :: "'n noise_ops \<Rightarrow> bytes \<Rightarrow> 'n noise_socket \<Rightarrow> 'n finished" where
  "write_op ops data s =
     (if writing s then Done (s\<lparr>writeBuffer := writeBuffer s @ [data]\<rparr>)
      else private_write ops data (s\<lparr>writing := True\<rparr>))"


text \<open>Several \<^verbatim>\<open>readable\<close> events in a row, one per chunk.\<close>

fun deliver ::
  "'n noise_ops \<Rightarrow> (bytes list \<Rightarrow> bool) \<Rightarrow> bytes list \<Rightarrow> 'n noise_socket \<Rightarrow> 'n noise_socket" where
  "deliver ops acc [] s = s"
| "deliver ops acc (c # cs) s = deliver ops acc cs (onReadable ops acc c s)"

text \<open>
  The consumer calls \<^verbatim>\<open>_read\<close> \<open>k\<close> times in a row; each call is followed by the
  \<^verbatim>\<open>_onData\<close> it schedules.
\<close>

fun drain ::
  "'n noise_ops \<Rightarrow> (bytes list \<Rightarrow> bool) \<Rightarrow> nat \<Rightarrow> 'n noise_socket \<Rightarrow> 'n noise_socket" where
  "drain ops acc 0 s = s"
| "drain ops acc (Suc k) s = drain ops acc k (read_op ops acc s)"

fun outcome_state :: "'n outcome \<Rightarrow> 'n noise_socket" where
  "outcome_state (Continue s) = s"
| "outcome_state (Stop s) = s"
| "outcome_state (Raise e s) = s"

fun finished_state :: "'n finished \<Rightarrow> 'n noise_socket" where
  "finished_state (Done s) = s"
| "finished_state (Raised e s) = s"

text \<open>The cached length is a number exactly in the state \<open>READY_FOR_BODY\<close>.\<close>

definition cache_inv :: "'n noise_socket \<Rightarrow> bool" where
  "cache_inv s = ((\<exists>n. lenCache s = Num n) = (readState s = READY_FOR_BODY))"

text \<open>
  Two sockets that stand at the same place of the byte stream: the same cached length,
  noise state, unread bytes and pushed payloads, and the same read state once a blocked
  socket is unblocked.
\<close>

definition sim :: "'n noise_socket \<Rightarrow> 'n noise_socket \<Rightarrow> bool" where
  "sim s t =
     (lenCache s = lenCache t \<and> noiseState s = noiseState t \<and> rbuf s = rbuf t \<and>
      ended s = ended t \<and> pushed s = pushed t \<and>
      readState t = (if readState s = BLOCKED then READY_FOR_LEN else readState s))"

text \<open>The handshake is over: the socket reads frames.\<close>

definition post_handshake :: "'n noise_socket \<Rightarrow> bool" where
  "post_handshake s =
     (readState s \<noteq> PENDING \<and> readState s \<noteq> AWAITING_HANDSHAKE_REPLY)"

text \<open>
  What the comment in the \<^verbatim>\<open>catch\<close> block of \<^verbatim>\<open>_onData\<close> expects of the noise state
  machine: after a failed decryption no decryption succeeds any more. \<open>dead\<close> tells the
  noise states in which every decryption fails.
\<close>

definition fails_for_good :: "'n noise_ops \<Rightarrow> ('n \<Rightarrow> bool) \<Rightarrow> bool" where
  "fails_for_good ops dead =
     (\<forall>n x. (isl (fst (decryptLength ops n x)) \<or> dead n \<longrightarrow>
              isl (fst (decryptLength ops n x)) \<and> dead (snd (decryptLength ops n x))) \<and>
            (isl (fst (decryptMessage ops n x)) \<or> dead n \<longrightarrow>
              isl (fst (decryptMessage ops n x)) \<and> dead (snd (decryptMessage ops n x))))"

text \<open>
  The states a NoiseSocket goes through between two handlers. The wrapped socket emits
  \<^verbatim>\<open>connect\<close> once, before it delivers anything, so \<^verbatim>\<open>_onConnected\<close> runs on a socket
  whose handshake has not started, and it delivers no bytes after the stream has ended;
  every other handler may run at any time, with any chunk, any payload and any answer
  of the consumer to a push.
\<close>

inductive reachable :: "'n noise_ops \<Rightarrow> 'n noise_socket \<Rightarrow> bool" for ops :: "'n noise_ops" where
  r_new: "reachable ops (new_socket ns ini)"
| r_listen: "reachable ops s \<Longrightarrow> reachable ops (add_error_listener s)"
| r_connect: "reachable ops s \<Longrightarrow> readState s = PENDING \<Longrightarrow> reachable ops (onConnected ops s)"
| r_readable: "reachable ops s \<Longrightarrow> \<not> ended s \<Longrightarrow> reachable ops (onReadable ops acc chunk s)"
| r_eof: "reachable ops s \<Longrightarrow> reachable ops (onEnd ops acc s)"
| r_read: "reachable ops s \<Longrightarrow> reachable ops (read_op ops acc s)"
| r_write: "reachable ops s \<Longrightarrow> reachable ops (finished_state (write_op ops data s))"
| r_end: "reachable ops s \<Longrightarrow> reachable ops (end_socket s)"
| r_finished: "reachable ops s \<Longrightarrow> reachable ops (socket_finished s)"
| r_forward: "reachable ops s \<Longrightarrow> reachable ops (onSocketEvent ev s)"

text \<open>
  \<open>passes ops acc s s0\<close>: the loop of \<^verbatim>\<open>_onData\<close>, started in \<open>s\<close>, is about to make a
  pass in \<open>s0\<close>.
\<close>

inductive passes ::
  "'n noise_ops \<Rightarrow> (bytes list \<Rightarrow> bool) \<Rightarrow> 'n noise_socket \<Rightarrow> 'n noise_socket \<Rightarrow> bool"
  for ops :: "'n noise_ops" and acc :: "bytes list \<Rightarrow> bool" where
  p_none: "passes ops acc s s"
| p_more: "step ops acc s = Continue s1 \<Longrightarrow> passes ops acc s1 s2 \<Longrightarrow> passes ops acc s s2"

section \<open>Sixteen-bit fields and the buffer cursor\<close>

definition u16be :: "nat \<Rightarrow> bytes" where
  "u16be n = [of_nat (n div 256), of_nat (n mod 256)]"

text \<open>
  Modelled from the spec: the class \<^verbatim>\<open>BufferCursor\<close> (package
  \<^verbatim>\<open>@lntools/buffer-cursor\<close>) is not among the sources. The specification fixes the fields
  it reads and writes as big-endian \<open>u16\<close> values and length-prefixed byte strings; a
  cursor is a buffer and a position, every accessor moves the position past what it
  read or wrote, and, as Node's \<^verbatim>\<open>Buffer\<close> accessors do, throws a \<^verbatim>\<open>RangeError\<close> for an
  access past the end of the buffer and for a value that does not fit sixteen bits.
\<close>

record cursor =
  buffer :: bytes
  position :: nat

definition new_cursor :: "bytes \<Rightarrow> cursor" where
  "new_cursor b = \<lparr> buffer = b, position = 0 \<rparr>"

definition readUInt16BE :: "cursor \<Rightarrow> error + nat \<times> cursor" where
  "readUInt16BE c =
     (if length (buffer c) < position c + 2 then Inl RangeError
      else Inr (256 * unat (buffer c ! position c) + unat (buffer c ! (position c + 1)),
                c\<lparr>position := position c + 2\<rparr>))"

definition readBytes :: "nat \<Rightarrow> cursor \<Rightarrow> error + bytes \<times> cursor" where
  "readBytes len c =
     (if len = 0 then Inr ([], c)
      else if length (buffer c) < position c + len then Inl RangeError
      else Inr (take len (drop (position c) (buffer c)), c\<lparr>position := position c + len\<rparr>))"

definition poke :: "nat \<Rightarrow> bytes \<Rightarrow> bytes \<Rightarrow> bytes" where
  "poke pos new buf = take pos buf @ new @ drop (pos + length new) buf"

definition writeUInt16BE :: "int \<Rightarrow> cursor \<Rightarrow> error + cursor" where
  "writeUInt16BE v c =
     (if v < 0 \<or> 65535 < v \<or> length (buffer c) < position c + 2 then Inl RangeError
      else Inr (c\<lparr>buffer := poke (position c) (u16be (nat v)) (buffer c),
                  position := position c + 2\<rparr>))"

definition writeBytes :: "bytes \<Rightarrow> cursor \<Rightarrow> error + cursor" where
  "writeBytes bs c =
     (if bs = [] then Inr c
      else if length (buffer c) < position c + length bs then Inl RangeError
      else Inr (c\<lparr>buffer := poke (position c) bs (buffer c),
                  position := position c + length bs\<rparr>))"

section \<open>PingMessage (ping-message.ts)\<close>

text \<open>
  Modelled from the spec: the enumeration \<^verbatim>\<open>MessageType\<close> and the constant
  \<^verbatim>\<open>PONG_BYTE_THRESHOLD\<close> are imported from files that are not among the sources. The
  specification's wire constants give them: message types \<open>init = 16\<close>, \<open>ping = 18\<close>,
  \<open>pong = 19\<close>, and the pong threshold 65532.
\<close>

definition MessageType_Init :: int where "MessageType_Init = 16"
definition MessageType_Ping :: int where "MessageType_Ping = 18"
definition MessageType_Pong :: int where "MessageType_Pong = 19"
definition PONG_BYTE_THRESHOLD :: int where "PONG_BYTE_THRESHOLD = 65532"

text \<open>
  \<^verbatim>\<open>numPongBytes\<close> is a JavaScript number and \<^verbatim>\<open>ignored\<close> a \<^verbatim>\<open>Buffer\<close>. The field
  \<^verbatim>\<open>type\<close> is initialised to \<^verbatim>\<open>MessageType.Ping\<close> and assigned nowhere, so it is a
  constant of the class here.
\<close>

record ping_message =
  numPongBytes :: int
  ignored :: bytes

definition ping_type :: "ping_message \<Rightarrow> int" where
  "ping_type p = MessageType_Ping"

definition serialize :: "ping_message \<Rightarrow> error + bytes" where
  "serialize p =
     (let c0 = new_cursor (replicate (2 + 2 + 2 + length (ignored p)) 0) in
      case writeUInt16BE (ping_type p) c0 of Inl e \<Rightarrow> Inl e | Inr c1 \<Rightarrow>
      case writeUInt16BE (numPongBytes p) c1 of Inl e \<Rightarrow> Inl e | Inr c2 \<Rightarrow>
      case writeUInt16BE (int (length (ignored p))) c2 of Inl e \<Rightarrow> Inl e | Inr c3 \<Rightarrow>
      case writeBytes (ignored p) c3 of Inl e \<Rightarrow> Inl e | Inr c4 \<Rightarrow>
      Inr (buffer c4))"

definition deserialize :: "bytes \<Rightarrow> error + ping_message" where
  "deserialize payload =
     (case readUInt16BE (new_cursor payload) of Inl e \<Rightarrow> Inl e | Inr (ty, c1) \<Rightarrow>
      case readUInt16BE c1 of Inl e \<Rightarrow> Inl e | Inr (npb, c2) \<Rightarrow>
      case readUInt16BE c2 of Inl e \<Rightarrow> Inl e | Inr (bytesLength, c3) \<Rightarrow>
      case readBytes bytesLength c3 of Inl e \<Rightarrow> Inl e | Inr (ign, c4) \<Rightarrow>
      Inr \<lparr> numPongBytes = int npb, ignored = ign \<rparr>)"

definition triggersReply :: "ping_message \<Rightarrow> bool" where
  "triggersReply p = (numPongBytes p < PONG_BYTE_THRESHOLD)"

section \<open>Peer (peer.ts)\<close>

text \<open>
  Modelled from the spec: the class \<^verbatim>\<open>Peer\<close>, its \<^verbatim>\<open>InitMessage\<close> and its ping/pong
  service are not among the sources; only the tests of \<^verbatim>\<open>Peer\<close> are. The types below are
  the specification's \<open>PeerState\<close> and \<open>InitMessage\<close>, the session's configuration as far
  as a transport close looks at it (the role and \<open>reconnect_timeout_ms\<close>), and what the
  session does to the outside, in order.
\<close>

datatype peer_state = PeerPending | AwaitingPeerInit | PeerReady | Disconnecting | Disconnected

record init_message =
  globalFeatures :: bytes
  localFeatures :: bytes

datatype peer_action =
    EmitReady
  | EmitClose
  | EmitError error
  | EmitMessage bytes
  | PingPongStart
  | PingPongOnMessage bytes
  | PingPongOnDisconnecting
  | TransportEnd
  | ScheduleReconnect nat

record peer =
  peerState :: peer_state
  remoteInit :: "init_message option"
  isInitiator :: bool
  reconnectTimeoutMs :: nat
  actions :: "peer_action list"

text \<open>
  Modelled from the spec: the decoder of inbound frames is not among the sources. A frame
  starts with its big-endian message type; an \<open>init\<close> message is type 16 followed by
  \<open>u16 gflen || gf || u16 lflen || lf\<close>.
\<close>

definition message_type :: "bytes \<Rightarrow> nat option" where
  "message_type raw =
     (case readUInt16BE (new_cursor raw) of Inl e \<Rightarrow> None | Inr (ty, c) \<Rightarrow> Some ty)"

definition deserialize_init :: "bytes \<Rightarrow> error + init_message" where
  "deserialize_init raw =
     (case readUInt16BE (new_cursor raw) of Inl e \<Rightarrow> Inl UnexpectedMessage | Inr (ty, c1) \<Rightarrow>
      if int ty \<noteq> MessageType_Init then Inl UnexpectedMessage else
      case readUInt16BE c1 of Inl e \<Rightarrow> Inl MalformedInit | Inr (gflen, c2) \<Rightarrow>
      case readBytes gflen c2 of Inl e \<Rightarrow> Inl MalformedInit | Inr (gf, c3) \<Rightarrow>
      case readUInt16BE c3 of Inl e \<Rightarrow> Inl MalformedInit | Inr (lflen, c4) \<Rightarrow>
      case readBytes lflen c4 of Inl e \<Rightarrow> Inl MalformedInit | Inr (lf, c5) \<Rightarrow>
      Inr \<lparr> globalFeatures = gf, localFeatures = lf \<rparr>)"

text \<open>
  Modelled from the spec: the feature bits of a bitmask. Bit \<open>i\<close> is bit \<open>i mod 8\<close> of the
  byte \<open>i div 8\<close> places before the last one, so that the features \<^verbatim>\<open>0x02\<close> of the
  specification's init exchange are the bit 1 alone. Which feature bits a session knows is
  left open by the specification: it is the parameter \<open>known\<close>. An unknown bit that is set
  is tolerated at an odd position and fatal at an even one.
\<close>

definition feature_set :: "bytes \<Rightarrow> nat \<Rightarrow> bool" where
  "feature_set bs i =
     (i < 8 * length bs \<and> bit (bs ! (length bs - 1 - i div 8)) (i mod 8))"

definition unknown_required :: "(nat \<Rightarrow> bool) \<Rightarrow> bytes \<Rightarrow> bool" where
  "unknown_required known bs =
     list_ex (\<lambda>i. even i \<and> feature_set bs i \<and> \<not> known i) [0 ..< 8 * length bs]"

text \<open>
  Modelled from the spec: \<^verbatim>\<open>Peer._processPeerInitMessage\<close> is not among the sources. In
  \<open>AwaitingPeerInit\<close> an inbound frame decoded as \<open>init\<close> starts the ping/pong service, is
  stored as the remote init and takes the session to \<open>Ready\<close>, which emits \<^verbatim>\<open>ready\<close>;
  any other first frame is an error, and so is an \<open>init\<close> with an unknown feature bit at
  an even position (\<open>UnknownRequiredFeature\<close>).
\<close>

definition processPeerInitMessage :: "(nat \<Rightarrow> bool) \<Rightarrow> bytes \<Rightarrow> peer \<Rightarrow> error + peer" where
  "processPeerInitMessage known raw p =
     (case deserialize_init raw of
        Inl e \<Rightarrow> Inl e
      | Inr m \<Rightarrow>
          if unknown_required known (globalFeatures m) \<or>
             unknown_required known (localFeatures m)
          then Inl UnknownRequiredFeature
          else Inr (p\<lparr>remoteInit := Some m, peerState := PeerReady,
                      actions := actions p @ [PingPongStart, EmitReady]\<rparr>))"

text \<open>
  Modelled from the spec: \<^verbatim>\<open>Peer._onSocketData\<close> is not among the sources. It hands the
  frame to the handler of the session's state; when the handler fails the session emits
  \<^verbatim>\<open>error\<close>, closes the transport and is \<open>Disconnecting\<close>.
\<close>

definition onSocketData :: "(nat \<Rightarrow> bool) \<Rightarrow> bytes \<Rightarrow> peer \<Rightarrow> peer" where
  "onSocketData known raw p =
     (case peerState p of
        AwaitingPeerInit \<Rightarrow>
          (case processPeerInitMessage known raw p of
             Inr p' \<Rightarrow> p'
           | Inl e \<Rightarrow> p\<lparr>peerState := Disconnecting,
                          actions := actions p @ [EmitError e, TransportEnd]\<rparr>)
      | PeerReady \<Rightarrow> p\<lparr>actions := actions p @ [PingPongOnMessage raw, EmitMessage raw]\<rparr>
      | _ \<Rightarrow> p)"

text \<open>
  Modelled from the spec: \<^verbatim>\<open>Peer._onSocketClose\<close> is not among the sources. The rows of
  the specification's state table for a transport close: in \<open>Disconnecting\<close> the session
  emits \<^verbatim>\<open>close\<close> and does not reconnect; otherwise it emits \<^verbatim>\<open>close\<close> and, if it is the
  initiator, schedules a reconnect, which happens after \<open>reconnect_timeout_ms\<close>. The
  tests of \<^verbatim>\<open>Peer\<close> agree: the ping/pong service is told of every close, and a \<open>Ready\<close>
  initiator whose \<^verbatim>\<open>reconnectTimeoutMs\<close> is 0 has called \<^verbatim>\<open>connect\<close> again 50 ms after
  the close.
\<close>

definition peer_onSocketClose :: "peer \<Rightarrow> peer" where
  "peer_onSocketClose p =
     (if peerState p = Disconnecting then
        p\<lparr>peerState := Disconnected,
           actions := actions p @ [PingPongOnDisconnecting, EmitClose]\<rparr>
      else if isInitiator p then
        p\<lparr>peerState := Disconnected,
           actions := actions p @ [PingPongOnDisconnecting, EmitClose,
                                   ScheduleReconnect (reconnectTimeoutMs p)]\<rparr>
      else
        p\<lparr>peerState := Disconnected,
           actions := actions p @ [PingPongOnDisconnecting, EmitClose]\<rparr>)"

text \<open>
  Modelled from the spec: the configuration table's reading of \<open>reconnect_timeout_ms\<close>,
  by which the value 0 disables reconnecting.
\<close>

definition reconnect_enabled :: "peer \<Rightarrow> bool" where
  "reconnect_enabled p = (reconnectTimeoutMs p \<noteq> 0)"

text \<open>The delays of the reconnects scheduled so far.\<close>

fun reconnects :: "peer_action list \<Rightarrow> nat list" where
  "reconnects [] = []"
| "reconnects (ScheduleReconnect ms # as) = ms # reconnects as"
| "reconnects (a # as) = reconnects as"

section \<open>A cipher to run the code on\<close>

text \<open>
  A stand-in for the noise state machine, used to run the socket on concrete bytes: act 2
  is accepted when it has 50 bytes and the version 0, the cipher leaves the plaintext as
  it is and appends a tag of sixteen zero bytes, a decryption throws when the tag is not
  all zero and then leaves the noise state as it was, and the noise state counts the
  encryptions and decryptions done.
\<close>

definition zero_tag :: bytes where
  "zero_tag = [0, 0, 0, 0, 0, 0, 0, 0, 0, 0, 0, 0, 0, 0, 0, 0]"

definition null_ops :: "nat noise_ops" where
  "null_ops =
     \<lparr> initiatorAct1 = (\<lambda>n. (Inr (replicate 50 0), n)),
       initiatorAct2 = (\<lambda>n m. if length m = 50 \<and> hd m = 0 then (Inr (), n)
                                else (Inl HandshakeFailure, n)),
       initiatorAct3 = (\<lambda>n. (Inr (replicate 66 0), n)),
       decryptLength = (\<lambda>n lc. if drop 2 lc = zero_tag
                          then (Inr (256 * unat (lc ! 0) + unat (lc ! 1)), n + 1)
                          else (Inl AeadTagFailure, n)),
       decryptMessage = (\<lambda>n c. if drop (length c - 16) c = zero_tag
                          then (Inr (take (length c - 16) c), n + 1)
                          else (Inl AeadTagFailure, n)),
       encryptMessage = (\<lambda>n m. (Inr (u16be (length m) @ zero_tag @ m @ zero_tag), n + 2)) \<rparr>"

text \<open>A consumer that never pushes back, and one that always does.\<close>

definition accept_all :: "bytes list \<Rightarrow> bool" where
  "accept_all ps = True"

definition refuse_all :: "bytes list \<Rightarrow> bool" where
  "refuse_all ps = False"

text \<open>
  An initiator whose owner listens to \<^verbatim>\<open>error\<close>, after \<^verbatim>\<open>connect\<close>, and the same initiator
  after the peer's act 2: its handshake is over and its socket buffer is empty.
\<close>

definition awaiting_socket :: "nat noise_socket" where
  "awaiting_socket = onConnected null_ops (add_error_listener (new_socket 0 True))"

definition idle_socket :: "nat noise_socket" where
  "idle_socket = onReadable null_ops accept_all (replicate 50 0) awaiting_socket"

text \<open>
  A length header whose tag is wrong, and the frame of the one-byte payload \<open>0x68\<close>.
\<close>

definition bad_header :: bytes where
  "bad_header = [0, 1, 1, 0, 0, 0, 0, 0, 0, 0, 0, 0, 0, 0, 0, 0, 0, 0]"

definition good_header :: bytes where
  "good_header = [0, 1, 0, 0, 0, 0, 0, 0, 0, 0, 0, 0, 0, 0, 0, 0, 0, 0]"

definition good_body :: bytes where
  "good_body = [104, 0, 0, 0, 0, 0, 0, 0, 0, 0, 0, 0, 0, 0, 0, 0, 0]"

text \<open>The initiator after it has read the length header of a one-byte frame.\<close>

definition body_wait :: "nat noise_socket" where
  "body_wait = onReadable null_ops accept_all good_header idle_socket"

text \<open>
  An idle initiator that has just received two frames, and the initiator whose
  consumer refused the payload of its first frame.
\<close>

definition two_frames :: "nat noise_socket" where
  "two_frames = feed (good_header @ good_body @ good_header @ good_body) idle_socket"

definition blocked_socket :: "nat noise_socket" where
  "blocked_socket = onData null_ops refuse_all (feed good_body body_wait)"

text \<open>
  The same stand-in with a noise state that remembers a failed decryption and fails
  every decryption after it.
\<close>

definition strict_ops :: "(nat \<times> bool) noise_ops" where
  "strict_ops =
     \<lparr> initiatorAct1 = (\<lambda>n. (Inr (replicate 50 0), n)),
       initiatorAct2 = (\<lambda>n m. if length m = 50 \<and> hd m = 0 then (Inr (), n)
                                else (Inl HandshakeFailure, n)),
       initiatorAct3 = (\<lambda>n. (Inr (replicate 66 0), n)),
       decryptLength = (\<lambda>n lc. if \<not> snd n \<and> drop 2 lc = zero_tag
                          then (Inr (256 * unat (lc ! 0) + unat (lc ! 1)), (fst n + 1, False))
                          else (Inl AeadTagFailure, (fst n, True))),
       decryptMessage = (\<lambda>n c. if \<not> snd n \<and> drop (length c - 16) c = zero_tag
                          then (Inr (take (length c - 16) c), (fst n + 1, False))
                          else (Inl AeadTagFailure, (fst n, True))),
       encryptMessage = (\<lambda>n m. (Inr (u16be (length m) @ zero_tag @ m @ zero_tag), n)) \<rparr>"

definition strict_idle :: "(nat \<times> bool) noise_socket" where
  "strict_idle =
     onReadable strict_ops accept_all (replicate 50 0)
       (onConnected strict_ops (add_error_listener (new_socket (0, False) True)))"

text \<open>An idle initiator whose owner does not listen to \<^verbatim>\<open>error\<close>.\<close>

definition unheard_socket :: "nat noise_socket" where
  "unheard_socket =
     onReadable null_ops accept_all (replicate 50 0)
       (onConnected null_ops (new_socket 0 True))"

text \<open>A session that has sent its \<open>init\<close> and waits for the peer's.\<close>

definition awaiting_peer :: peer where
  "awaiting_peer =
     \<lparr> peerState = AwaitingPeerInit, remoteInit = None, isInitiator = True,
       reconnectTimeoutMs = 0, actions = [] \<rparr>"

section \<open>Facts about the read loop\<close>

lemma payloads_append: "payloads (xs @ ys) = payloads xs @ payloads ys"
  by (induction xs rule: payloads.induct) simp_all

lemmas handler_defs = step_def processHandshakeReply_def processPacketLength_def
  processPacketBody_def set_readState_def notify_def socket_write_def Let_def

lemmas pass_defs = handler_defs read_body_def

lemmas read_defs = stream_read_def socket_read_def socket_read_all_def

lemmas step_defs = pass_defs read_defs

lemmas step_splits = read_state.splits option.splits prod.splits sum.splits if_splits
  js_len.splits

lemmas run_defs = onReadable_def onEnd_def onData_def feed_def terminate_def emit_def
  uncaught_def end_socket_def pushed_def read_op_def read_unblock_def add_error_listener_def

lemma idle_socket_eq:
  "idle_socket =
     \<lparr> readState = READY_FOR_LEN, lenCache = Undefined, noiseState = 0, initiator = True,
       messagesReceived = 0, rbuf = [], ended = False, errorListener = True,
       writing = False, writeBuffer = [], endCallbacks = 0,
       trace = [SocketWrite (replicate 50 0), SetReadState AWAITING_HANDSHAKE_REPLY,
                SocketWrite (replicate 66 0), SetReadState READY_FOR_LEN, Emit Connect,
                Emit Ready] \<rparr>"
  by (simp add: idle_socket_def awaiting_socket_def new_socket_def onConnected_def
        initiateHandshake_def loop.simps step_defs run_defs null_ops_def accept_all_def)

lemma strict_idle_eq:
  "strict_idle =
     \<lparr> readState = READY_FOR_LEN, lenCache = Undefined, noiseState = (0, False),
       initiator = True, messagesReceived = 0, rbuf = [], ended = False, errorListener = True,
       writing = False, writeBuffer = [], endCallbacks = 0,
       trace = [SocketWrite (replicate 50 0), SetReadState AWAITING_HANDSHAKE_REPLY,
                SocketWrite (replicate 66 0), SetReadState READY_FOR_LEN, Emit Connect,
                Emit Ready] \<rparr>"
  by (simp add: strict_idle_def new_socket_def onConnected_def initiateHandshake_def
        loop.simps step_defs run_defs strict_ops_def accept_all_def)

lemma awaiting_socket_eq:
  "awaiting_socket =
     \<lparr> readState = AWAITING_HANDSHAKE_REPLY, lenCache = Undefined, noiseState = 0,
       initiator = True, messagesReceived = 0, rbuf = [], ended = False,
       errorListener = True, writing = False, writeBuffer = [], endCallbacks = 0,
       trace = [SocketWrite (replicate 50 0), SetReadState AWAITING_HANDSHAKE_REPLY] \<rparr>"
  by (simp add: awaiting_socket_def new_socket_def onConnected_def initiateHandshake_def
        step_defs run_defs null_ops_def)

lemma unheard_socket_eq:
  "unheard_socket = idle_socket\<lparr>errorListener := False\<rparr>"
  by (simp add: idle_socket_eq unheard_socket_def new_socket_def onConnected_def
        initiateHandshake_def loop.simps step_defs run_defs null_ops_def accept_all_def)

lemma awaiting_socket_reachable: "reachable null_ops awaiting_socket"
  unfolding awaiting_socket_def
  by (intro reachable.r_connect reachable.r_listen reachable.r_new)
     (simp add: new_socket_def add_error_listener_def)

lemma idle_socket_reachable: "reachable null_ops idle_socket"
  unfolding idle_socket_def
  by (intro reachable.r_readable awaiting_socket_reachable)
     (simp add: awaiting_socket_eq)

lemmas null_defs = null_ops_def accept_all_def refuse_all_def idle_socket_eq bad_header_def
  good_header_def good_body_def zero_tag_def

lemma step_cache_inv: "cache_inv s \<Longrightarrow> cache_inv (outcome_state (step ops acc s))"
  by (auto simp: cache_inv_def pass_defs split: step_splits)

lemma loop_cache_inv: "cache_inv s \<Longrightarrow> cache_inv (finished_state (loop ops acc s))"
proof (induction ops acc s rule: loop.induct)
  case (1 ops acc s)
  from step_cache_inv [OF "1.prems", of ops acc] "1.IH" show ?case
    by (cases "step ops acc s") (simp_all add: loop.simps [of ops acc s])
qed

lemma cache_inv_feed [simp]: "cache_inv (feed c s) = cache_inv s"
  by (simp add: cache_inv_def feed_def)

lemma feed_feed [simp]: "feed c2 (feed c1 s) = feed (c1 @ c2) s"
  by (simp add: feed_def)

lemma feed_Nil [simp]: "feed [] s = s"
  by (simp add: feed_def)

text \<open>
  A pass of the loop that had the bytes it needed does the same when more bytes follow
  them in the buffer.
\<close>

lemma step_ended: "ended (outcome_state (step ops acc s)) = ended s"
  by (auto simp: pass_defs split: step_splits)

lemma loop_ended: "ended (finished_state (loop ops acc s)) = ended s"
proof (induction ops acc s rule: loop.induct)
  case (1 ops acc s)
  from step_ended [of ops acc s] "1.IH" show ?case
    by (cases "step ops acc s") (simp_all add: loop.simps [of ops acc s])
qed

lemma settle_terminate:
  "settle (terminate (Some e) s) =
     (if errorListener s then end_socket (notify (ErrorEvent e) s) else uncaught e s)"
  by (simp add: terminate_def emit_def)

lemma onData_ended [simp]: "ended (onData ops acc s) = ended s"
  using loop_ended [of ops acc s]
  by (cases "loop ops acc s")
     (simp_all add: onData_def settle_terminate end_socket_def notify_def uncaught_def)

lemma ended_feed [simp]: "ended (feed c s) = ended s"
  by (simp add: feed_def)

lemma stream_read_feed:
  "\<not> ended s \<Longrightarrow> stream_read n s = Some (m, rest) \<Longrightarrow>
     stream_read n (s\<lparr>rbuf := rbuf s @ c\<rparr>) = Some (m, rest @ c)"
  by (auto simp: read_defs split: if_splits)

lemma step_feed_Continue:
  "cache_inv s \<Longrightarrow> \<not> ended s \<Longrightarrow> step ops acc s = Continue s' \<Longrightarrow>
     step ops acc (feed c s) = Continue (feed c s')"
  by (auto simp: cache_inv_def pass_defs feed_def pushed_def stream_read_feed
      split: step_splits)

lemma step_feed_Raise:
  "cache_inv s \<Longrightarrow> \<not> ended s \<Longrightarrow> step ops acc s = Raise e s' \<Longrightarrow>
     step ops acc (feed c s) = Raise e (feed c s')"
  by (auto simp: cache_inv_def pass_defs feed_def pushed_def stream_read_feed
      split: step_splits)

lemma step_feed_Stop:
  "cache_inv s \<Longrightarrow> \<not> ended s \<Longrightarrow> step ops acc s = Stop s' \<Longrightarrow>
     s' = s \<or> (readState s' = BLOCKED \<and> step ops acc (feed c s) = Stop (feed c s'))"
  by (auto simp: cache_inv_def pass_defs feed_def pushed_def stream_read_feed
      split: step_splits)

lemma loop_feed:
  "cache_inv s \<Longrightarrow> \<not> ended s \<Longrightarrow>
     (\<forall>e s'. loop ops acc s = Raised e s' \<longrightarrow>
        loop ops acc (feed c s) = Raised e (feed c s')) \<and>
     (\<forall>s1. loop ops acc s = Done s1 \<longrightarrow>
        loop ops acc (feed c s) = loop ops acc (feed c s1))"
proof (induction ops acc s rule: loop.induct)
  case (1 ops acc s)
  note inv = "1.prems"(1) and open_s = "1.prems"(2)
  show ?case
  proof (cases "step ops acc s")
    case (Continue s')
    have inv': "cache_inv s'"
      using step_cache_inv [OF inv, of ops acc] Continue by simp
    have open': "\<not> ended s'"
      using step_ended [of ops acc s] Continue open_s by simp
    have "step ops acc (feed c s) = Continue (feed c s')"
      using step_feed_Continue [OF inv open_s Continue] .
    then have a: "loop ops acc (feed c s) = loop ops acc (feed c s')"
      by (simp add: loop.simps [of ops acc "feed c s"])
    have b: "loop ops acc s = loop ops acc s'"
      using Continue by (simp add: loop.simps [of ops acc s])
    show ?thesis
      using "1.IH" [OF Continue inv' open'] a b by simp
  next
    case (Stop s')
    have b: "loop ops acc s = Done s'"
      using Stop by (simp add: loop.simps [of ops acc s])
    from step_feed_Stop [OF inv open_s Stop, of c]
    have "loop ops acc (feed c s) = loop ops acc (feed c s')"
    proof
      assume "s' = s"
      then show ?thesis by simp
    next
      assume h: "readState s' = BLOCKED \<and> step ops acc (feed c s) = Stop (feed c s')"
      then have "loop ops acc (feed c s) = Done (feed c s')"
        by (simp add: loop.simps [of ops acc "feed c s"])
      moreover have "step ops acc (feed c s') = Stop (feed c s')"
        using h by (simp add: step_def feed_def)
      then have "loop ops acc (feed c s') = Done (feed c s')"
        by (simp add: loop.simps [of ops acc "feed c s'"])
      ultimately show ?thesis by simp
    qed
    with b show ?thesis by simp
  next
    case (Raise e s')
    have b: "loop ops acc s = Raised e s'"
      using Raise by (simp add: loop.simps [of ops acc s])
    have "step ops acc (feed c s) = Raise e (feed c s')"
      using step_feed_Raise [OF inv open_s Raise] .
    then have "loop ops acc (feed c s) = Raised e (feed c s')"
      by (simp add: loop.simps [of ops acc "feed c s"])
    with b show ?thesis by simp
  qed
qed

lemma step_Stop_cases:
  "step ops acc s = Stop s' \<Longrightarrow> s' = s \<or> readState s' = BLOCKED"
  by (auto simp: pass_defs split: step_splits)

lemma step_Stop_idem: "step ops acc s = Stop s' \<Longrightarrow> step ops acc s' = Stop s'"
  using step_Stop_cases [of ops acc s s'] by (auto simp: step_def)

lemma loop_Done_idem: "loop ops acc s = Done s1 \<Longrightarrow> loop ops acc s1 = Done s1"
proof (induction ops acc s rule: loop.induct)
  case (1 ops acc s)
  show ?case
  proof (cases "step ops acc s")
    case (Continue s')
    then show ?thesis using 1 by (simp add: loop.simps [of ops acc s])
  next
    case (Stop s')
    then have "s1 = s'" using "1.prems" by (simp add: loop.simps [of ops acc s])
    then show ?thesis
      using step_Stop_idem [OF Stop] by (simp add: loop.simps [of ops acc s'])
  next
    case (Raise e s')
    then show ?thesis using "1.prems" by (simp add: loop.simps [of ops acc s])
  qed
qed

lemma deliver_eq:
  "cache_inv s \<Longrightarrow> \<not> ended s \<Longrightarrow> loop ops acc s = Done s \<Longrightarrow>
   loop ops acc (feed (concat cs) s) = Done t \<Longrightarrow> deliver ops acc cs s = t"
proof (induction cs arbitrary: s)
  case Nil
  then show ?case by simp
next
  case (Cons c cs)
  have inv: "cache_inv (feed c s)" using Cons.prems(1) by simp
  have opn: "\<not> ended (feed c s)" using Cons.prems(2) by simp
  have whole: "loop ops acc (feed (concat cs) (feed c s)) = Done t"
    using Cons.prems(4) by simp
  obtain s1 where s1: "loop ops acc (feed c s) = Done s1"
  proof (cases "loop ops acc (feed c s)")
    case (Done s1)
    then show ?thesis using that by simp
  next
    case (Raised e s')
    with loop_feed [OF inv opn, of ops acc "concat cs"] whole show ?thesis by simp
  qed
  have od: "onReadable ops acc c s = s1" by (simp add: onReadable_def onData_def s1)
  have inv1: "cache_inv s1" using loop_cache_inv [OF inv, of ops acc] s1 by simp
  have opn1: "\<not> ended s1" using loop_ended [of ops acc "feed c s"] s1 opn by simp
  have idle1: "loop ops acc s1 = Done s1" using loop_Done_idem [OF s1] .
  have "loop ops acc (feed (concat cs) s1) = Done t"
    using loop_feed [OF inv opn, of ops acc "concat cs"] s1 whole by simp
  from Cons.IH [OF inv1 opn1 idle1 this] od show ?case by simp
qed

lemma terminate_cache_inv [simp]:
  "cache_inv (settle (terminate (Some e) s)) = cache_inv s"
  by (simp add: cache_inv_def settle_terminate end_socket_def notify_def uncaught_def)

lemma onData_cache_inv: "cache_inv s \<Longrightarrow> cache_inv (onData ops acc s)"
  using loop_cache_inv [of s ops acc]
  by (cases "loop ops acc s") (simp_all add: onData_def)

lemma read_unblock_cache_inv: "cache_inv s \<Longrightarrow> cache_inv (read_unblock s)"
  by (auto simp: cache_inv_def read_unblock_def set_readState_def)

lemma onConnected_cache_inv:
  "cache_inv s \<Longrightarrow> readState s = PENDING \<Longrightarrow> cache_inv (onConnected ops s)"
  by (auto simp: cache_inv_def onConnected_def initiateHandshake_def settle_terminate
        end_socket_def notify_def uncaught_def set_readState_def socket_write_def
      split: prod.splits sum.splits)

lemma write_op_cache_inv: "cache_inv s \<Longrightarrow> cache_inv (finished_state (write_op ops d s))"
  by (auto simp: cache_inv_def write_op_def private_write_def socket_write_def
      split: prod.splits sum.splits)

lemma reachable_cache_inv: "reachable ops s \<Longrightarrow> cache_inv s"
proof (induction rule: reachable.induct)
  case (r_new ns ini)
  show ?case by (simp add: cache_inv_def new_socket_def)
next
  case (r_listen s)
  then show ?case by (simp add: cache_inv_def add_error_listener_def)
next
  case (r_connect s)
  then show ?case by (simp add: onConnected_cache_inv)
next
  case (r_readable s acc chunk)
  then show ?case by (simp add: onReadable_def onData_cache_inv)
next
  case (r_eof s acc)
  then have "cache_inv (s\<lparr>ended := True\<rparr>)" by (simp add: cache_inv_def)
  then show ?case unfolding onEnd_def by (rule onData_cache_inv)
next
  case (r_read s acc)
  then show ?case by (simp add: read_op_def onData_cache_inv read_unblock_cache_inv)
next
  case (r_write s data)
  then show ?case by (simp add: write_op_cache_inv)
next
  case (r_end s)
  then show ?case by (simp add: cache_inv_def end_socket_def)
next
  case (r_finished s)
  then show ?case by (simp add: cache_inv_def socket_finished_def)
next
  case (r_forward s ev)
  then show ?case
    by (simp add: cache_inv_def onSocketEvent_def emit_def notify_def uncaught_def
          split: event.splits)
qed

lemma onData_Stop_same: "step ops acc s = Stop s \<Longrightarrow> onData ops acc s = s"
  by (simp add: onData_def loop.simps [of ops acc s])

lemma body_wait_eq:
  "body_wait =
     \<lparr> readState = READY_FOR_BODY, lenCache = Num 1, noiseState = 1, initiator = True,
       messagesReceived = 0, rbuf = [], ended = False, errorListener = True,
       writing = False, writeBuffer = [], endCallbacks = 0,
       trace = [SocketWrite (replicate 50 0), SetReadState AWAITING_HANDSHAKE_REPLY,
                SocketWrite (replicate 66 0), SetReadState READY_FOR_LEN, Emit Connect,
                Emit Ready, SetReadState READY_FOR_BODY] \<rparr>"
  by (simp add: body_wait_def new_socket_def onConnected_def initiateHandshake_def
        loop.simps step_defs run_defs null_defs)

lemma body_wait_reachable: "reachable null_ops body_wait"
  unfolding body_wait_def using idle_socket_reachable
  by (rule reachable.r_readable) (simp add: idle_socket_eq)

lemma step_listener: "errorListener (outcome_state (step ops acc s)) = errorListener s"
  by (auto simp: pass_defs split: step_splits)

lemma loop_listener: "errorListener (finished_state (loop ops acc s)) = errorListener s"
proof (induction ops acc s rule: loop.induct)
  case (1 ops acc s)
  from step_listener [of ops acc s] "1.IH" show ?case
    by (cases "step ops acc s") (simp_all add: loop.simps [of ops acc s])
qed

lemma onData_Raised:
  "loop ops acc s = Raised e s' \<Longrightarrow> errorListener s \<Longrightarrow>
     onData ops acc s =
       s'\<lparr>trace := trace s' @ [Emit (ErrorEvent e), SocketEnd],
           endCallbacks := endCallbacks s' + 1\<rparr>"
  using loop_listener [of ops acc s]
  by (simp add: onData_def settle_terminate end_socket_def notify_def)

lemma onData_Raised_unheard:
  "loop ops acc s = Raised e s' \<Longrightarrow> \<not> errorListener s \<Longrightarrow>
     onData ops acc s = s'\<lparr>trace := trace s' @ [Uncaught e]\<rparr>"
  using loop_listener [of ops acc s]
  by (simp add: onData_def settle_terminate uncaught_def)

lemma settle_terminate_fields [simp]:
  "noiseState (settle (terminate (Some e) s)) = noiseState s"
  "readState (settle (terminate (Some e) s)) = readState s"
  "rbuf (settle (terminate (Some e) s)) = rbuf s"
  "pushed (settle (terminate (Some e) s)) = pushed s"
  "post_handshake (settle (terminate (Some e) s)) = post_handshake s"
  by (simp_all add: settle_terminate end_socket_def notify_def uncaught_def pushed_def
        payloads_append post_handshake_def)

lemma step_Raise_cause:
  "step ops acc s = Raise e s' \<Longrightarrow>
     \<exists>m rest.
       (readState s = AWAITING_HANDSHAKE_REPLY \<and> stream_read 50 s = Some (m, rest) \<and>
          (initiatorAct2 ops (noiseState s) m = (Inl e, noiseState s') \<or>
           (\<exists>u n1. initiatorAct2 ops (noiseState s) m = (Inr u, n1) \<and>
              initiatorAct3 ops n1 = (Inl e, noiseState s')))) \<or>
       (readState s = READY_FOR_LEN \<and> stream_read 18 s = Some (m, rest) \<and>
          decryptLength ops (noiseState s) m = (Inl e, noiseState s')) \<or>
       (readState s = READY_FOR_BODY \<and> read_body (lenCache s) s = Some (m, rest) \<and>
          decryptMessage ops (noiseState s) m = (Inl e, noiseState s'))"
  by (auto simp: handler_defs split: step_splits)

lemma step_Raise_trace: "step ops acc s = Raise e s' \<Longrightarrow> trace s' = trace s"
  by (auto simp: pass_defs split: step_splits)

lemma loop_Raised_pass:
  "loop ops acc s = Raised e s' \<Longrightarrow> \<exists>s0. passes ops acc s s0 \<and> step ops acc s0 = Raise e s'"
proof (induction ops acc s rule: loop.induct)
  case (1 ops acc s)
  show ?case
  proof (cases "step ops acc s")
    case (Continue s1)
    with 1 obtain s0 where "passes ops acc s1 s0" "step ops acc s0 = Raise e s'"
      by (auto simp: loop.simps [of ops acc s])
    with Continue show ?thesis by (blast intro: passes.p_more)
  next
    case (Stop s1)
    then show ?thesis using "1.prems" by (simp add: loop.simps [of ops acc s])
  next
    case (Raise e1 s1)
    then have "step ops acc s = Raise e s'"
      using "1.prems" by (simp add: loop.simps [of ops acc s])
    then show ?thesis by (blast intro: passes.p_none)
  qed
qed

text \<open>
  A socket whose consumer pushes back goes through the passes of a socket whose consumer
  never does, stopping early after each refused push.
\<close>

lemma sim_reads:
  "sim s t \<Longrightarrow>
     (\<forall>n. stream_read n t = stream_read n s) \<and> (\<forall>l. read_body l t = read_body l s)"
  by (simp add: sim_def read_body_def read_defs split: js_len.splits)

lemma step_sim_Continue:
  "sim s t \<Longrightarrow> readState s \<noteq> BLOCKED \<Longrightarrow> step ops acc s = Continue s' \<Longrightarrow>
     readState s' \<noteq> BLOCKED \<and> (\<exists>t'. step ops accept_all t = Continue t' \<and> sim s' t')"
  using sim_reads [of s t]
  by (auto simp: sim_def handler_defs pushed_def payloads_append accept_all_def split: step_splits)

lemma step_sim_Raise:
  "sim s t \<Longrightarrow> readState s \<noteq> BLOCKED \<Longrightarrow> step ops acc s = Raise e s' \<Longrightarrow>
     (\<exists>t'. step ops accept_all t = Raise e t')"
  using sim_reads [of s t]
  by (auto simp: sim_def handler_defs pushed_def payloads_append accept_all_def split: step_splits)

lemma step_sim_Stop:
  "sim s t \<Longrightarrow> readState s \<noteq> BLOCKED \<Longrightarrow> step ops acc s = Stop s' \<Longrightarrow>
     (s' = s \<and> step ops accept_all t = Stop t) \<or>
     (readState s' = BLOCKED \<and> (\<exists>t'. step ops accept_all t = Continue t' \<and> sim s' t'))"
  using sim_reads [of s t]
  by (auto simp: sim_def handler_defs pushed_def payloads_append accept_all_def split: step_splits)

lemma loop_sim:
  "sim s t \<Longrightarrow> readState s \<noteq> BLOCKED \<Longrightarrow> loop ops accept_all t = Done tf \<Longrightarrow>
     \<exists>s1. loop ops acc s = Done s1 \<and>
       (if readState s1 = BLOCKED then \<exists>t1. sim s1 t1 \<and> loop ops accept_all t1 = Done tf
        else sim s1 tf)"
proof (induction ops acc s arbitrary: t rule: loop.induct)
  case (1 ops acc s)
  show ?case
  proof (cases "step ops acc s")
    case (Continue s')
    from step_sim_Continue [OF "1.prems"(1,2) Continue]
    obtain t' where nb: "readState s' \<noteq> BLOCKED"
      and t': "step ops accept_all t = Continue t'" and sim': "sim s' t'"
      by blast
    have "loop ops accept_all t' = Done tf"
      using "1.prems"(3) t' by (simp add: loop.simps [of ops accept_all t])
    from "1.IH" [OF Continue sim' nb this] show ?thesis
      using Continue by (simp add: loop.simps [of ops acc s])
  next
    case (Stop s')
    have l: "loop ops acc s = Done s'"
      using Stop by (simp add: loop.simps [of ops acc s])
    from step_sim_Stop [OF "1.prems"(1,2) Stop] show ?thesis
    proof
      assume h: "s' = s \<and> step ops accept_all t = Stop t"
      then have "tf = t"
        using "1.prems"(3) by (simp add: loop.simps [of ops accept_all t])
      then show ?thesis using l h "1.prems"(1,2) by simp
    next
      assume h: "readState s' = BLOCKED \<and>
        (\<exists>t'. step ops accept_all t = Continue t' \<and> sim s' t')"
      then obtain t' where t': "step ops accept_all t = Continue t'" and sim': "sim s' t'"
        by blast
      have "loop ops accept_all t' = Done tf"
        using "1.prems"(3) t' by (simp add: loop.simps [of ops accept_all t])
      then show ?thesis using l h sim' by auto
    qed
  next
    case (Raise e s')
    from step_sim_Raise [OF "1.prems"(1,2) Raise] obtain t' where
      "step ops accept_all t = Raise e t'" by blast
    then show ?thesis
      using "1.prems"(3) by (simp add: loop.simps [of ops accept_all t])
  qed
qed

lemma sim_read_unblock:
  "sim s t \<Longrightarrow> readState s = BLOCKED \<Longrightarrow>
     sim (read_unblock s) t \<and> readState (read_unblock s) \<noteq> BLOCKED"
  by (simp add: sim_def read_unblock_def set_readState_def pushed_def payloads_append)

lemma drain_sim:
  "sim s t \<Longrightarrow> readState s \<noteq> BLOCKED \<Longrightarrow> loop ops accept_all t = Done tf \<Longrightarrow>
   readState (drain ops acc k (onData ops acc s)) \<noteq> BLOCKED \<Longrightarrow>
     pushed (drain ops acc k (onData ops acc s)) = pushed tf"
proof (induction k arbitrary: s t)
  case 0
  from loop_sim [OF "0.prems"(1,2,3), of acc] obtain s1 where
    s1: "loop ops acc s = Done s1" and
    c: "if readState s1 = BLOCKED then \<exists>t1. sim s1 t1 \<and> loop ops accept_all t1 = Done tf
        else sim s1 tf"
    by blast
  have od: "onData ops acc s = s1" by (simp add: onData_def s1)
  then show ?case using c "0.prems"(4) by (auto simp: sim_def)
next
  case (Suc k)
  from loop_sim [OF Suc.prems(1,2,3), of acc] obtain s1 where
    s1: "loop ops acc s = Done s1" and
    c: "if readState s1 = BLOCKED then \<exists>t1. sim s1 t1 \<and> loop ops accept_all t1 = Done tf
        else sim s1 tf"
    by blast
  have od: "onData ops acc s = s1" by (simp add: onData_def s1)
  have dr: "drain ops acc (Suc k) (onData ops acc s) =
              drain ops acc k (onData ops acc (read_unblock s1))"
    by (simp add: od read_op_def)
  show ?case
  proof (cases "readState s1 = BLOCKED")
    case True
    with c obtain t1 where t1: "sim s1 t1" "loop ops accept_all t1 = Done tf" by auto
    from sim_read_unblock [OF t1(1) True] Suc.IH [of "read_unblock s1" t1] t1(2) Suc.prems(4) dr
    show ?thesis by simp
  next
    case False
    with c have st: "sim s1 tf" by simp
    have ru: "read_unblock s1 = s1" using False by (simp add: read_unblock_def)
    have idle: "loop ops accept_all tf = Done tf"
      using loop_Done_idem [OF Suc.prems(3)] .
    from Suc.IH [OF st False idle] Suc.prems(4) dr ru show ?thesis by simp
  qed
qed

lemma sim_refl: "readState s \<noteq> BLOCKED \<Longrightarrow> sim s s"
  by (simp add: sim_def)

lemma blocked_socket_eq:
  "blocked_socket =
     body_wait\<lparr>readState := BLOCKED, lenCache := Null, noiseState := 2,
       messagesReceived := 1,
       trace := trace body_wait @ [Push [104] False, SetReadState BLOCKED]\<rparr>"
  by (simp add: blocked_socket_def body_wait_eq loop.simps step_defs run_defs null_defs)

lemma reconnects_append: "reconnects (xs @ ys) = reconnects xs @ reconnects ys"
  by (induction xs rule: reconnects.induct) simp_all

text \<open>Once a decryption has failed for good, the socket pushes nothing more.\<close>

lemma ffg_len:
  "fails_for_good ops dead \<Longrightarrow> decryptLength ops n x = (r, n') \<Longrightarrow> isl r \<or> dead n \<Longrightarrow>
     isl r \<and> dead n'"
  unfolding fails_for_good_def by (metis fst_conv snd_conv)

lemma ffg_msg:
  "fails_for_good ops dead \<Longrightarrow> decryptMessage ops n x = (r, n') \<Longrightarrow> isl r \<or> dead n \<Longrightarrow>
     isl r \<and> dead n'"
  unfolding fails_for_good_def by (metis fst_conv snd_conv)

lemma step_post_handshake:
  "post_handshake s \<Longrightarrow> post_handshake (outcome_state (step ops acc s))"
  by (auto simp: post_handshake_def pass_defs split: step_splits)

lemma step_Raise_dead:
  assumes "fails_for_good ops dead" "post_handshake s" "step ops acc s = Raise e s'"
  shows "dead (noiseState s')"
proof (cases "readState s")
  case READY_FOR_LEN
  with assms(3) obtain lc rest n1 where
    "decryptLength ops (noiseState s) lc = (Inl e, n1)" "noiseState s' = n1"
    by (auto simp: step_def processPacketLength_def split: option.splits prod.splits sum.splits)
  with ffg_len [OF assms(1), of "noiseState s" lc "Inl e" n1] show ?thesis by simp
next
  case READY_FOR_BODY
  with assms(3) obtain c rest n1 where
    "decryptMessage ops (noiseState s) c = (Inl e, n1)" "noiseState s' = n1"
    by (auto simp: step_def processPacketBody_def Let_def
          split: option.splits prod.splits sum.splits if_splits)
  with ffg_msg [OF assms(1), of "noiseState s" c "Inl e" n1] show ?thesis by simp
qed (use assms(2,3) in \<open>simp_all add: step_def post_handshake_def\<close>)

lemma loop_post_handshake:
  "post_handshake s \<Longrightarrow> post_handshake (finished_state (loop ops acc s))"
proof (induction ops acc s rule: loop.induct)
  case (1 ops acc s)
  from step_post_handshake [OF "1.prems", of ops acc] "1.IH" show ?case
    by (cases "step ops acc s") (simp_all add: loop.simps [of ops acc s])
qed

lemma loop_Raised_dead:
  "fails_for_good ops dead \<Longrightarrow> post_handshake s \<Longrightarrow> loop ops acc s = Raised e s' \<Longrightarrow>
     dead (noiseState s')"
proof (induction ops acc s rule: loop.induct)
  case (1 ops acc s)
  show ?case
  proof (cases "step ops acc s")
    case (Continue s1)
    have "post_handshake s1"
      using step_post_handshake [OF "1.prems"(2), of ops acc] Continue by simp
    with 1 Continue show ?thesis by (simp add: loop.simps [of ops acc s])
  next
    case (Stop s1)
    then show ?thesis using "1.prems"(3) by (simp add: loop.simps [of ops acc s])
  next
    case (Raise e1 s1)
    then have "e1 = e" "s1 = s'"
      using "1.prems"(3) by (simp_all add: loop.simps [of ops acc s])
    with step_Raise_dead [OF "1.prems"(1,2) Raise] show ?thesis by simp
  qed
qed

lemma step_dead:
  assumes "fails_for_good ops dead" "dead (noiseState s)" "post_handshake s"
  shows "step ops acc s = Stop s \<or>
         (\<exists>e s'. step ops acc s = Raise e s' \<and> trace s' = trace s)"
proof (cases "readState s")
  case READY_FOR_LEN
  show ?thesis
  proof (cases "stream_read (2 + 16) s")
    case None
    then show ?thesis using READY_FOR_LEN by (simp add: step_def processPacketLength_def)
  next
    case (Some a)
    obtain lc rest where a: "a = (lc, rest)" by (cases a)
    obtain r n1 where d: "decryptLength ops (noiseState s) lc = (r, n1)"
      by (cases "decryptLength ops (noiseState s) lc")
    from ffg_len [OF assms(1) d] assms(2) obtain e where "r = Inl e" by (cases r) auto
    then show ?thesis
      using READY_FOR_LEN Some a d by (simp add: step_def processPacketLength_def)
  qed
next
  case READY_FOR_BODY
  show ?thesis
  proof (cases "read_body (lenCache s) s")
    case None
    then show ?thesis using READY_FOR_BODY by (simp add: step_def processPacketBody_def)
  next
    case (Some a)
    obtain c rest where a: "a = (c, rest)" by (cases a)
    obtain r n1 where d: "decryptMessage ops (noiseState s) c = (r, n1)"
      by (cases "decryptMessage ops (noiseState s) c")
    from ffg_msg [OF assms(1) d] assms(2) obtain e where "r = Inl e" by (cases r) auto
    then show ?thesis
      using READY_FOR_BODY Some a d by (simp add: step_def processPacketBody_def)
  qed
qed (use assms(3) in \<open>simp_all add: step_def post_handshake_def\<close>)

lemma onData_dead:
  assumes "fails_for_good ops dead" "dead (noiseState s)" "post_handshake s"
  shows "pushed (onData ops acc s) = pushed s \<and> dead (noiseState (onData ops acc s)) \<and>
         post_handshake (onData ops acc s)"
proof -
  from step_dead [OF assms, of acc] show ?thesis
  proof
    assume "step ops acc s = Stop s"
    then have "onData ops acc s = s" by (rule onData_Stop_same)
    then show ?thesis using assms by simp
  next
    assume "\<exists>e s'. step ops acc s = Raise e s' \<and> trace s' = trace s"
    then obtain e s' where r: "step ops acc s = Raise e s'" and tr: "trace s' = trace s"
      by blast
    have l: "loop ops acc s = Raised e s'" using r by (simp add: loop.simps [of ops acc s])
    have d: "dead (noiseState s')" using step_Raise_dead [OF assms(1,3) r] .
    have p: "post_handshake s'"
      using step_post_handshake [OF assms(3), of ops acc] r by simp
    have "pushed s' = pushed s" using tr by (simp add: pushed_def)
    then show ?thesis
      using d p by (simp add: onData_def l)
  qed
qed

lemma deliver_dead:
  "fails_for_good ops dead \<Longrightarrow> dead (noiseState s) \<Longrightarrow> post_handshake s \<Longrightarrow>
     pushed (deliver ops acc cs s) = pushed s"
proof (induction cs arbitrary: s)
  case Nil
  show ?case by simp
next
  case (Cons c cs)
  have "dead (noiseState (feed c s))" "post_handshake (feed c s)"
    using Cons.prems by (simp_all add: feed_def post_handshake_def)
  from onData_dead [OF Cons.prems(1) this, of acc] Cons.IH [OF Cons.prems(1)]
  show ?case by (simp add: onReadable_def feed_def pushed_def)
qed

lemma deliver_pushed_eq:
  "fails_for_good ops dead \<Longrightarrow> cache_inv s \<Longrightarrow> \<not> ended s \<Longrightarrow> post_handshake s \<Longrightarrow>
   loop ops acc s = Done s \<Longrightarrow>
     pushed (deliver ops acc cs s) = pushed (onReadable ops acc (concat cs) s)"
proof (induction cs arbitrary: s)
  case Nil
  then show ?case by (simp add: onReadable_def onData_def)
next
  case (Cons c cs)
  have inv: "cache_inv (feed c s)" using Cons.prems(2) by simp
  have opn: "\<not> ended (feed c s)" using Cons.prems(3) by simp
  have ph: "post_handshake (feed c s)" using Cons.prems(4) by (simp add: feed_def post_handshake_def)
  show ?case
  proof (cases "loop ops acc (feed c s)")
    case (Done s1)
    have od: "onReadable ops acc c s = s1" by (simp add: onReadable_def onData_def Done)
    have inv1: "cache_inv s1" using loop_cache_inv [OF inv, of ops acc] Done by simp
    have opn1: "\<not> ended s1" using loop_ended [of ops acc "feed c s"] Done opn by simp
    have ph1: "post_handshake s1" using loop_post_handshake [OF ph, of ops acc] Done by simp
    have idle1: "loop ops acc s1 = Done s1" using loop_Done_idem [OF Done] .
    have "loop ops acc (feed (concat cs) (feed c s)) = loop ops acc (feed (concat cs) s1)"
      using loop_feed [OF inv opn, of ops acc "concat cs"] Done by simp
    then have "onReadable ops acc (concat (c # cs)) s = onReadable ops acc (concat cs) s1"
      by (simp add: onReadable_def onData_def)
    with Cons.IH [OF Cons.prems(1) inv1 opn1 ph1 idle1] od show ?thesis by simp
  next
    case (Raised e s')
    have od: "onReadable ops acc c s = settle (terminate (Some e) s')"
      by (simp add: onReadable_def onData_def Raised)
    have d: "dead (noiseState (settle (terminate (Some e) s')))"
      using loop_Raised_dead [OF Cons.prems(1) ph Raised] by simp
    have ph': "post_handshake (settle (terminate (Some e) s'))"
      using loop_post_handshake [OF ph, of ops acc] Raised by simp
    have "loop ops acc (feed (concat cs) (feed c s)) = Raised e (feed (concat cs) s')"
      using loop_feed [OF inv opn, of ops acc "concat cs"] Raised by simp
    then have "pushed (onReadable ops acc (concat (c # cs)) s) = pushed (feed (concat cs) s')"
      by (simp add: onReadable_def onData_def)
    then have "pushed (onReadable ops acc (concat (c # cs)) s) = pushed s'"
      by (simp add: feed_def pushed_def)
    then show ?thesis
      using deliver_dead [OF Cons.prems(1) d ph', of acc cs] od by simp
  qed
qed

lemma step_received:
  "messagesReceived s = length (pushed s) \<Longrightarrow>
     messagesReceived (outcome_state (step ops acc s)) =
       length (pushed (outcome_state (step ops acc s)))"
  by (auto simp: pass_defs pushed_def payloads_append split: step_splits)

lemma loop_received:
  "messagesReceived s = length (pushed s) \<Longrightarrow>
     messagesReceived (finished_state (loop ops acc s)) =
       length (pushed (finished_state (loop ops acc s)))"
proof (induction ops acc s rule: loop.induct)
  case (1 ops acc s)
  from step_received [OF "1.prems", of ops acc] "1.IH" show ?case
    by (cases "step ops acc s") (simp_all add: loop.simps [of ops acc s])
qed

lemma onData_received:
  "messagesReceived s = length (pushed s) \<Longrightarrow>
     messagesReceived (onData ops acc s) = length (pushed (onData ops acc s))"
  using loop_received [of s ops acc]
  by (cases "loop ops acc s")
     (simp_all add: onData_def settle_terminate end_socket_def notify_def uncaught_def
        pushed_def payloads_append)

lemma payloads_replicate_Emit [simp]: "payloads (replicate k (Emit ev)) = []"
  by (induction k) simp_all

section \<open>Facts about the ping codec\<close>

lemma serialize_bytes:
  assumes "0 \<le> numPongBytes p" "numPongBytes p \<le> 65535" "length (ignored p) \<le> 65535"
  shows "serialize p =
           Inr (u16be 18 @ u16be (nat (numPongBytes p)) @ u16be (length (ignored p)) @ ignored p)"
proof -
  let ?k = "length (ignored p)"
  have r: "replicate (2 + 2 + 2 + ?k) (0 :: byte) = [0, 0, 0, 0, 0, 0] @ replicate ?k 0"
    by (simp add: replicate_add [symmetric] eval_nat_numeral)
  show ?thesis
    using assms
    by (cases "ignored p = []")
       (simp_all add: serialize_def new_cursor_def writeUInt16BE_def writeBytes_def poke_def r
          ping_type_def MessageType_Ping_def u16be_def)
qed

lemma deserialize_bytes:
  assumes "a < 65536" "length ign < 65536"
  shows "deserialize (u16be t @ u16be a @ u16be (length ign) @ ign) =
           Inr \<lparr> numPongBytes = int a, ignored = ign \<rparr>"
proof -
  have d: "256 * unat (of_nat (a div 256) :: byte) + unat (of_nat (a mod 256) :: byte) = a"
    using assms(1) by (simp add: unat_of_nat)
  have e: "256 * unat (of_nat (length ign div 256) :: byte)
             + unat (of_nat (length ign mod 256) :: byte) = length ign"
    using assms(2) by (simp add: unat_of_nat)
  show ?thesis
    by (simp add: deserialize_def new_cursor_def readUInt16BE_def readBytes_def u16be_def d e)
qed

section \<open>The properties\<close>

text \<open>
  Claim C1. The comment in \<^verbatim>\<open>_processPacketLength\<close> expects the attempt to abort when
  the 18 bytes cannot be read, and the comment in \<^verbatim>\<open>_processPacketBody\<close> expects the
  same of an incomplete body. Once the peer has ended the stream this is not what
  happens: \<^verbatim>\<open>read(18)\<close> returns the bytes that are left, \<^verbatim>\<open>decryptLength\<close> is called on
  them, and when it throws the socket emits \<^verbatim>\<open>error\<close> and ends the stream. Below, an
  idle initiator holds one byte of a length header when the stream ends, and an
  initiator that has decrypted the length 1 holds one byte of the 17-byte body.
\<close>

theorem short_read_at_end_of_stream:
  "readState (onReadable null_ops accept_all [0] idle_socket) = READY_FOR_LEN \<and>
   rbuf (onReadable null_ops accept_all [0] idle_socket) = [0] \<and>
   onEnd null_ops accept_all (onReadable null_ops accept_all [0] idle_socket) =
     idle_socket\<lparr>ended := True, endCallbacks := 1,
       trace := trace idle_socket @ [Emit (ErrorEvent AeadTagFailure), SocketEnd]\<rparr> \<and>
   readState (onReadable null_ops accept_all [104] body_wait) = READY_FOR_BODY \<and>
   lenCache (onReadable null_ops accept_all [104] body_wait) = Num 1 \<and>
   rbuf (onReadable null_ops accept_all [104] body_wait) = [104] \<and>
   onEnd null_ops accept_all (onReadable null_ops accept_all [104] body_wait) =
     body_wait\<lparr>ended := True, endCallbacks := 1,
       trace := trace body_wait @ [Emit (ErrorEvent AeadTagFailure), SocketEnd]\<rparr>"
proof -
  have a: "onReadable null_ops accept_all [0] idle_socket = idle_socket\<lparr>rbuf := [0]\<rparr>"
    by (simp add: loop.simps step_defs run_defs null_defs)
  have b: "onEnd null_ops accept_all (idle_socket\<lparr>rbuf := [0]\<rparr>) =
     idle_socket\<lparr>ended := True, endCallbacks := 1,
       trace := trace idle_socket @ [Emit (ErrorEvent AeadTagFailure), SocketEnd]\<rparr>"
    by (simp add: loop.simps step_defs run_defs notify_def null_defs)
  have c: "onReadable null_ops accept_all [104] body_wait = body_wait\<lparr>rbuf := [104]\<rparr>"
    by (simp add: body_wait_eq loop.simps step_defs run_defs null_defs)
  have d: "onEnd null_ops accept_all (body_wait\<lparr>rbuf := [104]\<rparr>) =
     body_wait\<lparr>ended := True, endCallbacks := 1,
       trace := trace body_wait @ [Emit (ErrorEvent AeadTagFailure), SocketEnd]\<rparr>"
    by (simp add: body_wait_eq loop.simps step_defs run_defs notify_def null_defs)
  show ?thesis
    unfolding a c b d by (simp add: idle_socket_eq body_wait_eq)
qed

text \<open>
  Claim C2. The comment in the \<^verbatim>\<open>catch\<close> block of \<^verbatim>\<open>_onData\<close> says that the socket
  terminates on a failure because no more data can be read without further errors. The
  socket keeps no terminated state, though: when a length header fails to decrypt,
  \<^verbatim>\<open>_onData\<close> leaves its loop and what follows stays in the wrapped socket's buffer, and
  the next \<^verbatim>\<open>readable\<close> event runs \<^verbatim>\<open>_onData\<close> again, which decodes the frame that
  follows and pushes its payload after \<^verbatim>\<open>error\<close> was emitted and the stream ended.
  Delivered in one event, the bytes below push nothing; delivered in two, they push one
  payload.
\<close>

theorem frames_decoded_after_terminate:
  "reachable null_ops idle_socket \<and> readState idle_socket = READY_FOR_LEN \<and>
   rbuf idle_socket = [] \<and>
   pushed (onReadable null_ops accept_all (concat [bad_header, good_header @ good_body])
     idle_socket) = [] \<and>
   pushed (deliver null_ops accept_all [bad_header, good_header @ good_body] idle_socket) =
     [[104]] \<and>
   trace (deliver null_ops accept_all [bad_header, good_header @ good_body] idle_socket) =
     trace idle_socket @
       [Emit (ErrorEvent AeadTagFailure), SocketEnd, SetReadState READY_FOR_BODY,
        Push [104] True, SetReadState READY_FOR_LEN]"
  using idle_socket_reachable
  by (simp add: loop.simps step_defs run_defs notify_def null_defs)

text \<open>
  Claim C3. A payload of at most 65535 bytes is not always written as a frame.
  \<^verbatim>\<open>_write(data)\<close> never calls the callback Node passes to it, so the first \<^verbatim>\<open>write\<close>
  stays pending for good: it emits its frame, and every later \<^verbatim>\<open>write\<close> is buffered by
  the stream and never reaches \<^verbatim>\<open>_write\<close>. Below, an idle initiator writes the payload
  \<open>0x68\<close> and then the payload \<open>0x69\<close>: the second call writes nothing to the wrapped
  socket.
\<close>

theorem second_write_emits_no_frame:
  "write_op null_ops [104] idle_socket =
     Done (idle_socket\<lparr>noiseState := 2, writing := True,
             trace := trace idle_socket @ [SocketWrite (good_header @ good_body)]\<rparr>) \<and>
   write_op null_ops [105]
       (idle_socket\<lparr>noiseState := 2, writing := True,
          trace := trace idle_socket @ [SocketWrite (good_header @ good_body)]\<rparr>) =
     Done (idle_socket\<lparr>noiseState := 2, writing := True, writeBuffer := [[105]],
             trace := trace idle_socket @ [SocketWrite (good_header @ good_body)]\<rparr>)"
  by (simp add: write_op_def private_write_def socket_write_def u16be_def null_defs)

text \<open>
  Claim C4. The documentation of \<^verbatim>\<open>end()\<close> says that \<^verbatim>\<open>close\<close> is emitted when the
  underlying socket has completely closed. The code emits it from the callback given to
  \<^verbatim>\<open>socket.end\<close>, which runs when the writable side of the socket has finished, whether
  or not the socket has closed, and the constructor emits \<^verbatim>\<open>close\<close> a second time when
  the socket's own \<^verbatim>\<open>close\<close> arrives. Below, an idle initiator receives a length header
  whose tag is wrong: after \<^verbatim>\<open>error\<close> and \<^verbatim>\<open>socket.end\<close>, \<^verbatim>\<open>close\<close> is emitted at the
  socket's finish and again at its close. When nobody listens to \<^verbatim>\<open>error\<close>,
  \<^verbatim>\<open>emit('error', err)\<close> throws \<open>err\<close> out of \<^verbatim>\<open>_terminate\<close> and \<^verbatim>\<open>this.end()\<close> is not
  reached: the same header leaves the stream open, and no \<^verbatim>\<open>close\<close> follows its
  finish.
\<close>

theorem close_emitted_before_socket_closed:
  "onReadable null_ops accept_all bad_header idle_socket =
     idle_socket\<lparr>endCallbacks := 1,
       trace := trace idle_socket @ [Emit (ErrorEvent AeadTagFailure), SocketEnd]\<rparr> \<and>
   trace (socket_finished (onReadable null_ops accept_all bad_header idle_socket)) =
     trace idle_socket @ [Emit (ErrorEvent AeadTagFailure), SocketEnd, Emit Close] \<and>
   trace (onSocketEvent Close
       (socket_finished (onReadable null_ops accept_all bad_header idle_socket))) =
     trace idle_socket @ [Emit (ErrorEvent AeadTagFailure), SocketEnd, Emit Close, Emit Close] \<and>
   onReadable null_ops accept_all bad_header unheard_socket =
     unheard_socket\<lparr>trace := trace unheard_socket @ [Uncaught AeadTagFailure]\<rparr> \<and>
   socket_finished (onReadable null_ops accept_all bad_header unheard_socket) =
     onReadable null_ops accept_all bad_header unheard_socket"
proof -
  have a: "onReadable null_ops accept_all bad_header idle_socket =
     idle_socket\<lparr>endCallbacks := 1,
       trace := trace idle_socket @ [Emit (ErrorEvent AeadTagFailure), SocketEnd]\<rparr>"
    by (simp add: loop.simps step_defs run_defs notify_def null_defs)
  have b: "onReadable null_ops accept_all bad_header unheard_socket =
     unheard_socket\<lparr>trace := trace unheard_socket @ [Uncaught AeadTagFailure]\<rparr>"
    by (simp add: unheard_socket_eq loop.simps step_defs run_defs null_defs)
  show ?thesis
    unfolding a b
    by (simp add: unheard_socket_eq idle_socket_eq socket_finished_def onSocketEvent_def
          emit_def notify_def)
qed

text \<open>
  Claim C5. When the push of a decrypted payload returns \<^verbatim>\<open>false\<close> the socket has
  taken exactly that frame off the buffer, has pushed its payload once and is
  \<open>BLOCKED\<close>. A blocked socket reads nothing: a \<^verbatim>\<open>readable\<close> event leaves the new bytes in
  the buffer and changes nothing else. \<^verbatim>\<open>_read\<close> sets a blocked socket to
  \<open>READY_FOR_LEN\<close> and runs \<^verbatim>\<open>_onData\<close> from there, on the bytes that follow the frame.
  No frame is lost or duplicated: if reading the buffer without backpressure raises no
  error, then however often the consumer pushes back, once it has called \<^verbatim>\<open>_read\<close> often
  enough for the socket not to be blocked, the payloads pushed are those pushed without
  backpressure.
\<close>

theorem backpressure:
  "(readState s = READY_FOR_BODY \<and> lenCache s = Num n \<and>
      socket_read (n + 16) (rbuf s) = Some (c, rest) \<and>
      decryptMessage ops (noiseState s) c = (Inr m, n1) \<and> \<not> acc (pushed s @ [m]) \<longrightarrow>
      onData ops acc s =
        s\<lparr>readState := BLOCKED, lenCache := Null, noiseState := n1,
           messagesReceived := messagesReceived s + 1, rbuf := rest,
           trace := trace s @ [Push m False, SetReadState BLOCKED]\<rparr>) \<and>
   (readState s = BLOCKED \<longrightarrow> onReadable ops acc chunk s = feed chunk s) \<and>
   (readState s = BLOCKED \<longrightarrow>
      read_op ops acc s =
        onData ops acc (s\<lparr>readState := READY_FOR_LEN,
                           trace := trace s @ [SetReadState READY_FOR_LEN]\<rparr>)) \<and>
   (readState s \<noteq> BLOCKED \<and> \<not> raises ops accept_all s \<and>
      readState (drain ops acc k (onData ops acc s)) \<noteq> BLOCKED \<longrightarrow>
      pushed (drain ops acc k (onData ops acc s)) = pushed (onData ops accept_all s))"
proof (intro conjI impI)
  assume h: "readState s = READY_FOR_BODY \<and> lenCache s = Num n \<and>
      socket_read (n + 16) (rbuf s) = Some (c, rest) \<and>
      decryptMessage ops (noiseState s) c = (Inr m, n1) \<and> \<not> acc (pushed s @ [m])"
  then have "stream_read (n + 16) s = Some (c, rest)"
    by (auto simp: read_defs split: if_splits)
  with h show "onData ops acc s =
        s\<lparr>readState := BLOCKED, lenCache := Null, noiseState := n1,
           messagesReceived := messagesReceived s + 1, rbuf := rest,
           trace := trace s @ [Push m False, SetReadState BLOCKED]\<rparr>"
    by (simp add: onData_def loop.simps [of ops acc s] step_def processPacketBody_def
          read_body_def set_readState_def)
next
  assume "readState s = BLOCKED"
  then have "step ops acc (feed chunk s) = Stop (feed chunk s)"
    by (simp add: step_def feed_def)
  then show "onReadable ops acc chunk s = feed chunk s"
    by (simp add: onReadable_def onData_Stop_same)
next
  assume "readState s = BLOCKED"
  then show "read_op ops acc s =
        onData ops acc (s\<lparr>readState := READY_FOR_LEN,
                           trace := trace s @ [SetReadState READY_FOR_LEN]\<rparr>)"
    by (simp add: read_op_def read_unblock_def set_readState_def)
next
  assume h: "readState s \<noteq> BLOCKED \<and> \<not> raises ops accept_all s \<and>
      readState (drain ops acc k (onData ops acc s)) \<noteq> BLOCKED"
  then obtain tf where tf: "loop ops accept_all s = Done tf"
    by (cases "loop ops accept_all s") (simp_all add: raises_def)
  have "sim s s" using h by (simp add: sim_refl)
  from drain_sim [OF this _ tf] h
  have "pushed (drain ops acc k (onData ops acc s)) = pushed tf" by simp
  then show "pushed (drain ops acc k (onData ops acc s)) = pushed (onData ops accept_all s)"
    by (simp add: onData_def tf)
qed

theorem backpressure_witness:
  "readState blocked_socket = BLOCKED \<and> pushed blocked_socket = [[104]] \<and>
   onReadable null_ops refuse_all good_header blocked_socket = feed good_header blocked_socket \<and>
   readState (read_op null_ops refuse_all (feed good_header blocked_socket)) = READY_FOR_BODY \<and>
   readState (onData null_ops refuse_all two_frames) = BLOCKED \<and>
   pushed (drain null_ops refuse_all 2 (onData null_ops refuse_all two_frames)) =
     [[104], [104]]"
proof -
  have b: "readState blocked_socket = BLOCKED" "pushed blocked_socket = [[104]]"
    by (simp_all add: blocked_socket_eq body_wait_eq pushed_def)
  have r: "readState (read_op null_ops refuse_all (feed good_header blocked_socket)) =
             READY_FOR_BODY"
    by (simp add: blocked_socket_eq body_wait_eq loop.simps step_defs run_defs null_defs
          set_readState_def)
  have nr: "\<not> raises null_ops accept_all two_frames"
    by (simp add: raises_def two_frames_def loop.simps step_defs run_defs null_defs)
  have ideal: "pushed (onData null_ops accept_all two_frames) = [[104], [104]]"
    by (simp add: two_frames_def loop.simps step_defs run_defs null_defs)
  have first: "readState (onData null_ops refuse_all two_frames) = BLOCKED"
    by (simp add: two_frames_def loop.simps step_defs run_defs null_defs)
  have fin: "readState (drain null_ops refuse_all 2 (onData null_ops refuse_all two_frames))
               \<noteq> BLOCKED"
    by (simp add: eval_nat_numeral two_frames_def loop.simps step_defs run_defs null_defs)
  have st: "readState two_frames \<noteq> BLOCKED"
    by (simp add: two_frames_def feed_def idle_socket_eq)
  note T = backpressure [of two_frames 0 "[]" "[]" null_ops "[]" 0 refuse_all "[]" 2]
    backpressure [of blocked_socket 0 "[]" "[]" null_ops "[]" 0 refuse_all good_header 2]
  from T b r nr ideal first fin st show ?thesis by simp
qed

text \<open>
  Claim C6. The comment in \<^verbatim>\<open>_processHandshakeReply\<close> says that the 50 bytes of act 2
  must be read. Once the peer has ended the stream, \<^verbatim>\<open>read(50)\<close> returns the bytes that
  are left and \<^verbatim>\<open>initiatorAct2\<close> runs on them: below, an initiator that awaits act 2
  holds one byte when the stream ends, and the socket emits \<^verbatim>\<open>error\<close> and ends the
  stream. The \<^verbatim>\<open>ready\<close> event does not always come last either: the constructor forwards
  the wrapped socket's own \<^verbatim>\<open>ready\<close>, which an initiator that still awaits act 2 emits
  without having read anything.
\<close>

theorem handshake_reply_at_end_of_stream:
  "readState awaiting_socket = AWAITING_HANDSHAKE_REPLY \<and>
   onReadable null_ops accept_all [0] awaiting_socket = feed [0] awaiting_socket \<and>
   onEnd null_ops accept_all (onReadable null_ops accept_all [0] awaiting_socket) =
     awaiting_socket\<lparr>ended := True, endCallbacks := 1,
       trace := trace awaiting_socket @ [Emit (ErrorEvent HandshakeFailure), SocketEnd]\<rparr> \<and>
   onSocketEvent Ready awaiting_socket =
     awaiting_socket\<lparr>trace := trace awaiting_socket @ [Emit Ready]\<rparr> \<and>
   readState (onSocketEvent Ready awaiting_socket) = AWAITING_HANDSHAKE_REPLY"
proof -
  have a: "onReadable null_ops accept_all [0] awaiting_socket = feed [0] awaiting_socket"
    by (simp add: awaiting_socket_eq loop.simps step_defs run_defs)
  have b: "onEnd null_ops accept_all (feed [0] awaiting_socket) =
     awaiting_socket\<lparr>ended := True, endCallbacks := 1,
       trace := trace awaiting_socket @ [Emit (ErrorEvent HandshakeFailure), SocketEnd]\<rparr>"
    by (simp add: awaiting_socket_eq loop.simps step_defs run_defs notify_def null_ops_def)
  show ?thesis
    unfolding a b
    by (simp add: awaiting_socket_eq onSocketEvent_def emit_def notify_def)
qed

text \<open>
  Claim C7, as amended. In \<open>AwaitingPeerInit\<close>, a first frame that decodes as an \<open>init\<close>
  message (type 16) and sets no unknown feature bit at an even position is stored as
  the remote init, starts the ping/pong service, takes the session to \<open>Ready\<close> and emits
  \<^verbatim>\<open>ready\<close>. Every other first frame is an error, which the session emits before it
  closes the transport and becomes \<open>Disconnecting\<close>: \<open>UnknownRequiredFeature\<close> for an
  \<open>init\<close> with an unknown feature bit at an even position, \<open>MalformedInit\<close> for a frame
  of type 16 that does not decode, \<open>UnexpectedMessage\<close> for any other frame.
\<close>

theorem peer_init_transition:
  assumes "peerState p = AwaitingPeerInit"
  shows
  "(deserialize_init raw = Inr m \<and> \<not> unknown_required known (globalFeatures m) \<and>
      \<not> unknown_required known (localFeatures m) \<longrightarrow>
      message_type raw = Some 16 \<and>
      onSocketData known raw p =
        p\<lparr>remoteInit := Some m, peerState := PeerReady,
          actions := actions p @ [PingPongStart, EmitReady]\<rparr>) \<and>
   (deserialize_init raw = Inr m \<and>
      (unknown_required known (globalFeatures m) \<or>
       unknown_required known (localFeatures m)) \<longrightarrow>
      onSocketData known raw p =
        p\<lparr>peerState := Disconnecting,
          actions := actions p @ [EmitError UnknownRequiredFeature, TransportEnd]\<rparr>) \<and>
   (deserialize_init raw = Inl e \<longrightarrow>
      e = (if message_type raw = Some 16 then MalformedInit else UnexpectedMessage) \<and>
      onSocketData known raw p =
        p\<lparr>peerState := Disconnecting, actions := actions p @ [EmitError e, TransportEnd]\<rparr>)"
  using assms
  by (auto simp: processPeerInitMessage_def onSocketData_def deserialize_init_def
        message_type_def MessageType_Init_def split: sum.splits prod.splits if_splits)

theorem peer_init_witness:
  "onSocketData (\<lambda>i. i < 2) [0, 16, 0, 0, 0, 1, 2] awaiting_peer =
     awaiting_peer\<lparr>remoteInit := Some \<lparr> globalFeatures = [], localFeatures = [2] \<rparr>,
       peerState := PeerReady, actions := [PingPongStart, EmitReady]\<rparr> \<and>
   onSocketData (\<lambda>i. i < 2) [0, 17, 0, 0, 0, 0] awaiting_peer =
     awaiting_peer\<lparr>peerState := Disconnecting,
       actions := [EmitError UnexpectedMessage, TransportEnd]\<rparr> \<and>
   onSocketData (\<lambda>i. i < 2) [0, 16, 0, 1] awaiting_peer =
     awaiting_peer\<lparr>peerState := Disconnecting,
       actions := [EmitError MalformedInit, TransportEnd]\<rparr>"
proof -
  have s: "peerState awaiting_peer = AwaitingPeerInit" by (simp add: awaiting_peer_def)
  have d1: "deserialize_init [0, 16, 0, 0, 0, 1, 2] =
              Inr \<lparr> globalFeatures = [], localFeatures = [2] \<rparr>"
    by (simp add: deserialize_init_def new_cursor_def readUInt16BE_def readBytes_def
          MessageType_Init_def)
  have f1: "\<not> unknown_required (\<lambda>i. i < 2) []" "\<not> unknown_required (\<lambda>i. i < 2) [2]"
    by (simp_all add: unknown_required_def feature_set_def upt_rec)
  have d2: "deserialize_init [0, 17, 0, 0, 0, 0] = Inl UnexpectedMessage"
    by (simp add: deserialize_init_def new_cursor_def readUInt16BE_def readBytes_def
          MessageType_Init_def)
  have d3: "deserialize_init [0, 16, 0, 1] = Inl MalformedInit"
    by (simp add: deserialize_init_def new_cursor_def readUInt16BE_def readBytes_def
          MessageType_Init_def)
  from peer_init_transition [OF s, of "[0, 16, 0, 0, 0, 1, 2]"
      "\<lparr> globalFeatures = [], localFeatures = [2] \<rparr>" "\<lambda>i. i < 2" UnexpectedMessage]
    peer_init_transition [OF s, of "[0, 17, 0, 0, 0, 0]"
      "\<lparr> globalFeatures = [], localFeatures = [] \<rparr>" "\<lambda>i. i < 2" UnexpectedMessage]
    peer_init_transition [OF s, of "[0, 16, 0, 1]"
      "\<lparr> globalFeatures = [], localFeatures = [] \<rparr>" "\<lambda>i. i < 2" MalformedInit]
    d1 f1 d2 d3
  show ?thesis by (simp add: awaiting_peer_def)
qed

text \<open>
  Claim C7 as first stated takes every frame that decodes as an \<open>init\<close> message to
  \<open>Ready\<close>. The frame below is of type 16 and decodes as an \<open>init\<close> whose local features
  are \<^verbatim>\<open>0xff\<close>; a session that knows the feature bits 0 and 1 finds the bits 2, 4 and 6
  set, answers \<open>UnknownRequiredFeature\<close> and becomes \<open>Disconnecting\<close>.
\<close>

theorem peer_init_counterexample:
  "message_type [0, 16, 0, 0, 0, 1, 255] = Some 16 \<and>
   deserialize_init [0, 16, 0, 0, 0, 1, 255] =
     Inr \<lparr> globalFeatures = [], localFeatures = [255] \<rparr> \<and>
   processPeerInitMessage (\<lambda>i. i < 2) [0, 16, 0, 0, 0, 1, 255] awaiting_peer =
     Inl UnknownRequiredFeature \<and>
   onSocketData (\<lambda>i. i < 2) [0, 16, 0, 0, 0, 1, 255] awaiting_peer =
     awaiting_peer\<lparr>peerState := Disconnecting,
       actions := [EmitError UnknownRequiredFeature, TransportEnd]\<rparr>"
  by (simp add: awaiting_peer_def onSocketData_def processPeerInitMessage_def
        deserialize_init_def message_type_def new_cursor_def readUInt16BE_def readBytes_def
        MessageType_Init_def unknown_required_def feature_set_def upt_rec)

text \<open>
  Claim C8. A ping asks for a reply exactly when its \<open>num_pong_bytes\<close> is strictly below
  65532; a ping whose \<open>num_pong_bytes\<close> is 65532 asks for none.
\<close>

theorem triggersReply_iff:
  "triggersReply p = (numPongBytes p < 65532) \<and> \<not> triggersReply (p\<lparr>numPongBytes := 65532\<rparr>)"
  by (simp add: triggersReply_def PONG_BYTE_THRESHOLD_def)

theorem triggersReply_witness:
  "triggersReply \<lparr> numPongBytes = 65531, ignored = [] \<rparr> \<and>
   \<not> triggersReply \<lparr> numPongBytes = 65532, ignored = [] \<rparr>"
  using triggersReply_iff [of "\<lparr> numPongBytes = 65531, ignored = [] \<rparr>"] by simp

text \<open>
  Claim C9, as amended. A transport close stops the ping/pong service, emits \<^verbatim>\<open>close\<close>
  and leaves the session \<open>Disconnected\<close>. It schedules a reconnect exactly when the
  session is the initiator and is not \<open>Disconnecting\<close>, and then one reconnect, after
  \<open>reconnect_timeout_ms\<close>; a close in \<open>Disconnecting\<close> emits \<^verbatim>\<open>close\<close> and schedules
  nothing.
\<close>

theorem reconnect_on_close:
  "peerState (peer_onSocketClose p) = Disconnected \<and>
   actions (peer_onSocketClose p) =
     actions p @ [PingPongOnDisconnecting, EmitClose] @
       (if isInitiator p \<and> peerState p \<noteq> Disconnecting
        then [ScheduleReconnect (reconnectTimeoutMs p)] else []) \<and>
   reconnects (actions (peer_onSocketClose p)) =
     reconnects (actions p) @
       (if isInitiator p \<and> peerState p \<noteq> Disconnecting
        then [reconnectTimeoutMs p] else []) \<and>
   (peerState p = Disconnecting \<longrightarrow>
      actions (peer_onSocketClose p) = actions p @ [PingPongOnDisconnecting, EmitClose])"
  by (simp add: peer_onSocketClose_def reconnects_append)

theorem reconnect_witness:
  "reconnects (actions (peer_onSocketClose
      (awaiting_peer\<lparr>peerState := PeerReady, reconnectTimeoutMs := 5000\<rparr>))) = [5000] \<and>
   reconnects (actions (peer_onSocketClose
      (awaiting_peer\<lparr>peerState := PeerReady, isInitiator := False\<rparr>))) = [] \<and>
   actions (peer_onSocketClose (awaiting_peer\<lparr>peerState := Disconnecting\<rparr>)) =
     [PingPongOnDisconnecting, EmitClose]"
  using reconnect_on_close [of "awaiting_peer\<lparr>peerState := PeerReady, reconnectTimeoutMs := 5000\<rparr>"]
    reconnect_on_close [of "awaiting_peer\<lparr>peerState := PeerReady, isInitiator := False\<rparr>"]
    reconnect_on_close [of "awaiting_peer\<lparr>peerState := Disconnecting\<rparr>"]
  by (simp add: awaiting_peer_def)

text \<open>
  Claim C9 as first stated asks for reconnect to be enabled, which the configuration
  table reads as a \<open>reconnect_timeout_ms\<close> other than 0. The session of the test
  \<^verbatim>\<open>should trigger reconnect\<close> is a \<open>Ready\<close> initiator whose \<^verbatim>\<open>reconnectTimeoutMs\<close> is 0:
  reconnect is not enabled, and the close schedules a reconnect, after 0 ms.
\<close>

theorem reconnect_counterexample:
  "isInitiator (awaiting_peer\<lparr>peerState := PeerReady\<rparr>) \<and>
   peerState (awaiting_peer\<lparr>peerState := PeerReady\<rparr>) \<noteq> Disconnecting \<and>
   \<not> reconnect_enabled (awaiting_peer\<lparr>peerState := PeerReady\<rparr>) \<and>
   reconnects (actions (peer_onSocketClose (awaiting_peer\<lparr>peerState := PeerReady\<rparr>))) = [0]"
  by (simp add: awaiting_peer_def reconnect_enabled_def peer_onSocketClose_def)

text \<open>
  Claim C10, as amended. A ping whose \<open>numPongBytes\<close> is an integer from 0 to 65535 and
  whose \<open>ignored\<close> buffer holds at most 65535 bytes serializes to
  \<open>u16_be(18) || u16_be(numPongBytes) || u16_be(ignored.length) || ignored\<close>, which is
  \<open>6 + ignored.length\<close> bytes long, and deserializing these bytes gives a ping with the same
  type, \<open>numPongBytes\<close> and \<open>ignored\<close>.
\<close>

theorem ping_roundtrip:
  assumes "0 \<le> numPongBytes p" and "numPongBytes p \<le> 65535"
    and "length (ignored p) \<le> 65535"
  shows "\<exists>b. serialize p = Inr b
           \<and> b = u16be 18 @ u16be (nat (numPongBytes p)) @ u16be (length (ignored p)) @ ignored p
           \<and> length b = 6 + length (ignored p)
           \<and> (\<exists>q. deserialize b = Inr q \<and> ping_type q = ping_type p
                  \<and> numPongBytes q = numPongBytes p \<and> ignored q = ignored p)"
proof -
  have "deserialize (u16be 18 @ u16be (nat (numPongBytes p)) @ u16be (length (ignored p))
          @ ignored p) = Inr \<lparr> numPongBytes = int (nat (numPongBytes p)), ignored = ignored p \<rparr>"
    using assms by (intro deserialize_bytes) simp_all
  then show ?thesis
    using assms serialize_bytes [OF assms] by (simp add: ping_type_def u16be_def)
qed

theorem ping_roundtrip_witness:
  "serialize \<lparr> numPongBytes = 1, ignored = [] \<rparr> = Inr [0, 18, 0, 1, 0, 0] \<and>
   deserialize [0, 18, 0, 1, 0, 0] = Inr \<lparr> numPongBytes = 1, ignored = [] \<rparr>"
  using ping_roundtrip [of "\<lparr> numPongBytes = 1, ignored = [] \<rparr>"]
  by (auto simp: u16be_def)

text \<open>
  Claim C10 as first stated bounds only the length of \<open>ignored\<close>. A ping whose
  \<open>numPongBytes\<close> is 65536 has an empty \<open>ignored\<close> buffer and cannot be serialized: the
  value does not fit the sixteen-bit field.
\<close>

theorem ping_roundtrip_counterexample:
  "length (ignored \<lparr> numPongBytes = 65536, ignored = [] \<rparr>) \<le> 65535 \<and>
   serialize \<lparr> numPongBytes = 65536, ignored = [] \<rparr> = Inl RangeError"
  by (simp add: serialize_def new_cursor_def writeUInt16BE_def writeBytes_def poke_def
        ping_type_def MessageType_Ping_def u16be_def)

section \<open>Further properties of the socket\<close>

text \<open>
  In every reachable state the cached length \<^verbatim>\<open>_l\<close> holds a number exactly when the
  read state is \<open>READY_FOR_BODY\<close>; in the four other read states it is absent
  (\<^verbatim>\<open>undefined\<close> or \<^verbatim>\<open>null\<close>). While the stream has not ended, a read attempt in
  \<open>READY_FOR_LEN\<close> with fewer than 18 buffered bytes changes nothing, and neither does a
  read attempt in \<open>READY_FOR_BODY\<close> while the body is incomplete. The pass that reads
  the body does not depend on \<^verbatim>\<open>decryptLength\<close>.
\<close>

theorem length_cache_invariant:
  "(reachable ops s \<longrightarrow> ((\<exists>n. lenCache s = Num n) = (readState s = READY_FOR_BODY))) \<and>
   (\<not> ended s \<and> readState s = READY_FOR_LEN \<and> length (rbuf s) < 18 \<longrightarrow>
      onData ops acc s = s) \<and>
   (\<not> ended s \<and> readState s = READY_FOR_BODY \<and> lenCache s = Num n \<and>
      length (rbuf s) < n + 16 \<longrightarrow> onData ops acc s = s) \<and>
   (readState s = READY_FOR_BODY \<longrightarrow>
      step (ops\<lparr>decryptLength := f\<rparr>) acc s = step ops acc s)"
proof (intro conjI impI)
  assume "reachable ops s"
  then show "(\<exists>n. lenCache s = Num n) = (readState s = READY_FOR_BODY)"
    using reachable_cache_inv [of ops s] by (simp add: cache_inv_def)
next
  assume "\<not> ended s \<and> readState s = READY_FOR_LEN \<and> length (rbuf s) < 18"
  then have "step ops acc s = Stop s"
    by (simp add: step_def processPacketLength_def read_defs)
  then show "onData ops acc s = s" by (rule onData_Stop_same)
next
  assume "\<not> ended s \<and> readState s = READY_FOR_BODY \<and> lenCache s = Num n \<and>
    length (rbuf s) < n + 16"
  then have "step ops acc s = Stop s"
    by (simp add: step_def processPacketBody_def read_body_def read_defs)
  then show "onData ops acc s = s" by (rule onData_Stop_same)
next
  assume "readState s = READY_FOR_BODY"
  then show "step (ops\<lparr>decryptLength := f\<rparr>) acc s = step ops acc s"
    by (simp add: step_def processPacketBody_def split: option.splits)
qed

theorem length_cache_witness:
  "reachable null_ops body_wait \<and> readState body_wait = READY_FOR_BODY \<and>
   lenCache body_wait = Num 1 \<and>
   onData null_ops accept_all (feed [0] idle_socket) = feed [0] idle_socket \<and>
   onData null_ops accept_all (feed [104] body_wait) = feed [104] body_wait \<and>
   step (null_ops\<lparr>decryptLength := (\<lambda>n lc. (Inl AeadTagFailure, n))\<rparr>) accept_all
        (feed good_body body_wait) =
     step null_ops accept_all (feed good_body body_wait)"
  using length_cache_invariant [of null_ops body_wait accept_all 1 "\<lambda>n lc. (Inl AeadTagFailure, n)"]
    length_cache_invariant [of null_ops "feed [0] idle_socket" accept_all 1 "\<lambda>n lc. (Inl AeadTagFailure, n)"]
    length_cache_invariant [of null_ops "feed [104] body_wait" accept_all 1 "\<lambda>n lc. (Inl AeadTagFailure, n)"]
    length_cache_invariant [of null_ops "feed good_body body_wait" accept_all 1 "\<lambda>n lc. (Inl AeadTagFailure, n)"]
    body_wait_reachable
  by (simp add: body_wait_eq feed_def idle_socket_eq good_body_def)

text \<open>
  Take a reachable socket whose stream has not ended and that is idle (\<^verbatim>\<open>_onData\<close> has
  nothing to do), and bytes on which a single \<^verbatim>\<open>readable\<close> event does not end in an
  error. Delivering the bytes in any fragments, one \<^verbatim>\<open>readable\<close> event each, leaves the
  socket in the same state as delivering them in one event; in particular the payloads
  pushed upstream are the same, also when every byte comes in an event of its own. The
  consumer's answer to a push is any function of the payloads pushed so far.
\<close>

theorem fragmentation_invariance:
  assumes "reachable ops s" and "\<not> ended s" and "loop ops acc s = Done s"
    and "\<not> raises ops acc (feed (concat chunks) s)"
  shows "deliver ops acc chunks s = onReadable ops acc (concat chunks) s \<and>
         pushed (deliver ops acc chunks s) = pushed (onReadable ops acc (concat chunks) s) \<and>
         pushed (deliver ops acc (map (\<lambda>b. [b]) (concat chunks)) s) =
           pushed (onReadable ops acc (concat chunks) s)"
proof -
  from assms(4) obtain t where t: "loop ops acc (feed (concat chunks) s) = Done t"
    by (cases "loop ops acc (feed (concat chunks) s)") (simp_all add: raises_def)
  have whole: "onReadable ops acc (concat chunks) s = t"
    by (simp add: onReadable_def onData_def t)
  have inv: "cache_inv s" using assms(1) by (rule reachable_cache_inv)
  have a: "deliver ops acc chunks s = t"
    using inv assms(2,3) t by (rule deliver_eq)
  have "concat (map (\<lambda>b. [b]) (concat chunks)) = concat chunks"
    by (induction "concat chunks") simp_all
  then have "loop ops acc (feed (concat (map (\<lambda>b. [b]) (concat chunks))) s) = Done t"
    using t by simp
  then have b: "deliver ops acc (map (\<lambda>b. [b]) (concat chunks)) s = t"
    using inv assms(2,3) by (intro deliver_eq)
  show ?thesis using a b whole by simp
qed

theorem fragmentation_witness:
  "reachable null_ops idle_socket \<and> \<not> ended idle_socket \<and>
   loop null_ops accept_all idle_socket = Done idle_socket \<and>
   \<not> raises null_ops accept_all (feed (concat [good_header, good_body]) idle_socket) \<and>
   deliver null_ops accept_all [good_header, good_body] idle_socket =
     onReadable null_ops accept_all (good_header @ good_body) idle_socket \<and>
   pushed (deliver null_ops accept_all (map (\<lambda>b. [b]) (good_header @ good_body)) idle_socket) =
     [[104]]"
proof -
  have 1: "reachable null_ops idle_socket" by (rule idle_socket_reachable)
  have 0: "\<not> ended idle_socket" by (simp add: idle_socket_eq)
  have 2: "loop null_ops accept_all idle_socket = Done idle_socket"
    by (simp add: loop.simps step_defs null_defs)
  have 3: "\<not> raises null_ops accept_all (feed (concat [good_header, good_body]) idle_socket)"
    by (simp add: raises_def loop.simps step_defs run_defs null_defs)
  have 4: "pushed (onReadable null_ops accept_all (good_header @ good_body) idle_socket) = [[104]]"
    by (simp add: loop.simps step_defs run_defs null_defs)
  from fragmentation_invariance [OF 1 0 2 3] 1 0 2 3 4 show ?thesis by simp
qed

text \<open>
  If a failed decryption makes every later decryption fail, which is what
  the comment in the \<^verbatim>\<open>catch\<close> block of \<^verbatim>\<open>_onData\<close> expects, then for every byte
  sequence, with or without frames that fail to decrypt, a reachable idle socket whose
  handshake is over and whose stream has not ended pushes the same payloads whether the
  bytes arrive in one \<^verbatim>\<open>readable\<close> event or in any fragments.
\<close>

theorem fragmentation_when_failure_lasts:
  assumes "fails_for_good ops dead" and "reachable ops s" and "\<not> ended s"
    and "post_handshake s" and "loop ops acc s = Done s"
  shows "pushed (deliver ops acc chunks s) = pushed (onReadable ops acc (concat chunks) s)"
  using assms(1) reachable_cache_inv [OF assms(2)] assms(3,4,5) by (rule deliver_pushed_eq)

theorem fragmentation_when_failure_lasts_witness:
  "fails_for_good strict_ops snd \<and> reachable strict_ops strict_idle \<and>
   \<not> ended strict_idle \<and> post_handshake strict_idle \<and>
   loop strict_ops accept_all strict_idle = Done strict_idle \<and>
   pushed (deliver strict_ops accept_all [bad_header, good_header @ good_body] strict_idle) = [] \<and>
   pushed (onReadable strict_ops accept_all (bad_header @ good_header @ good_body) strict_idle) = []"
proof -
  have 1: "fails_for_good strict_ops snd"
    by (simp add: fails_for_good_def strict_ops_def)
  have 2: "reachable strict_ops strict_idle"
    unfolding strict_idle_def
    by (intro reachable.r_readable reachable.r_connect reachable.r_listen reachable.r_new)
       (simp_all add: new_socket_def add_error_listener_def onConnected_def
          initiateHandshake_def strict_ops_def set_readState_def socket_write_def)
  have 0: "\<not> ended strict_idle" by (simp add: strict_idle_eq)
  have 3: "post_handshake strict_idle" by (simp add: post_handshake_def strict_idle_eq)
  have 4: "loop strict_ops accept_all strict_idle = Done strict_idle"
    by (simp add: loop.simps step_defs strict_idle_eq)
  have 5: "pushed (onReadable strict_ops accept_all (bad_header @ good_header @ good_body)
             strict_idle) = []"
    by (simp add: loop.simps step_defs run_defs notify_def strict_ops_def strict_idle_eq
          null_defs)
  from fragmentation_when_failure_lasts [OF 1 2 0 3 4, of "[bad_header, good_header @ good_body]"]
    1 2 0 3 4 5 show ?thesis by simp
qed

text \<open>
  Take a socket whose owner listens to \<^verbatim>\<open>error\<close>. A pass of the read loop that throws
  has emitted, written and pushed nothing, and a pass throws only what
  \<^verbatim>\<open>initiatorAct2\<close>, \<^verbatim>\<open>initiatorAct3\<close>, \<^verbatim>\<open>decryptLength\<close> or \<^verbatim>\<open>decryptMessage\<close> throws;
  each of the four makes the loop throw. When the loop throws \<open>e\<close>, it does so in one of
  its passes, and \<^verbatim>\<open>_onData\<close> emits the \<^verbatim>\<open>error\<close> event with \<open>e\<close> and then ends the
  stream; the payloads pushed are those pushed before the failing pass. \<^verbatim>\<open>close\<close> is
  emitted when the writable side of the stream has finished, by the callback given to
  \<^verbatim>\<open>socket.end\<close>, and once more when the stream's own \<^verbatim>\<open>close\<close> is forwarded.
\<close>

theorem inbound_error_terminates:
  assumes "errorListener s"
  shows
  "(step ops acc s = Raise e s' \<longrightarrow>
      trace s' = trace s \<and>
      (\<exists>m rest.
         (readState s = AWAITING_HANDSHAKE_REPLY \<and> stream_read 50 s = Some (m, rest) \<and>
            (initiatorAct2 ops (noiseState s) m = (Inl e, noiseState s') \<or>
             (\<exists>u n1. initiatorAct2 ops (noiseState s) m = (Inr u, n1) \<and>
                initiatorAct3 ops n1 = (Inl e, noiseState s')))) \<or>
         (readState s = READY_FOR_LEN \<and> stream_read 18 s = Some (m, rest) \<and>
            decryptLength ops (noiseState s) m = (Inl e, noiseState s')) \<or>
         (readState s = READY_FOR_BODY \<and> read_body (lenCache s) s = Some (m, rest) \<and>
            decryptMessage ops (noiseState s) m = (Inl e, noiseState s')))) \<and>
   (loop ops acc s = Raised e s' \<longrightarrow>
      (\<exists>s0. passes ops acc s s0 \<and> step ops acc s0 = Raise e s' \<and> pushed s' = pushed s0) \<and>
      onData ops acc s =
        s'\<lparr>trace := trace s' @ [Emit (ErrorEvent e), SocketEnd],
            endCallbacks := endCallbacks s' + 1\<rparr> \<and>
      pushed (onData ops acc s) = pushed s' \<and>
      trace (socket_finished (onData ops acc s)) =
        trace s' @ [Emit (ErrorEvent e), SocketEnd] @
          replicate (endCallbacks s' + 1) (Emit Close) \<and>
      trace (onSocketEvent Close (socket_finished (onData ops acc s))) =
        trace s' @ [Emit (ErrorEvent e), SocketEnd] @
          replicate (endCallbacks s' + 1) (Emit Close) @ [Emit Close] \<and>
      pushed (onSocketEvent Close (socket_finished (onData ops acc s))) = pushed s') \<and>
   (readState s = AWAITING_HANDSHAKE_REPLY \<and> stream_read 50 s = Some (m, rest) \<and>
      initiatorAct2 ops (noiseState s) m = (Inl e, n1) \<longrightarrow>
      loop ops acc s = Raised e (s\<lparr>rbuf := rest, noiseState := n1\<rparr>)) \<and>
   (readState s = AWAITING_HANDSHAKE_REPLY \<and> stream_read 50 s = Some (m, rest) \<and>
      initiatorAct2 ops (noiseState s) m = (Inr u, n1) \<and>
      initiatorAct3 ops n1 = (Inl e, n2) \<longrightarrow>
      loop ops acc s = Raised e (s\<lparr>rbuf := rest, noiseState := n2\<rparr>)) \<and>
   (readState s = READY_FOR_LEN \<and> stream_read 18 s = Some (m, rest) \<and>
      decryptLength ops (noiseState s) m = (Inl e, n1) \<longrightarrow>
      loop ops acc s = Raised e (s\<lparr>rbuf := rest, noiseState := n1\<rparr>)) \<and>
   (readState s = READY_FOR_BODY \<and> read_body (lenCache s) s = Some (m, rest) \<and>
      decryptMessage ops (noiseState s) m = (Inl e, n1) \<longrightarrow>
      loop ops acc s = Raised e (s\<lparr>rbuf := rest, noiseState := n1\<rparr>))"
proof (intro conjI impI)
  assume r: "step ops acc s = Raise e s'"
  then show "trace s' = trace s" by (rule step_Raise_trace)
  show "\<exists>m rest.
         (readState s = AWAITING_HANDSHAKE_REPLY \<and> stream_read 50 s = Some (m, rest) \<and>
            (initiatorAct2 ops (noiseState s) m = (Inl e, noiseState s') \<or>
             (\<exists>u n1. initiatorAct2 ops (noiseState s) m = (Inr u, n1) \<and>
                initiatorAct3 ops n1 = (Inl e, noiseState s')))) \<or>
         (readState s = READY_FOR_LEN \<and> stream_read 18 s = Some (m, rest) \<and>
            decryptLength ops (noiseState s) m = (Inl e, noiseState s')) \<or>
         (readState s = READY_FOR_BODY \<and> read_body (lenCache s) s = Some (m, rest) \<and>
            decryptMessage ops (noiseState s) m = (Inl e, noiseState s'))"
    using r by (rule step_Raise_cause)
next
  assume r: "loop ops acc s = Raised e s'"
  from loop_Raised_pass [OF r] obtain s0 where
    "passes ops acc s s0" "step ops acc s0 = Raise e s'" by blast
  then show "\<exists>s0. passes ops acc s s0 \<and> step ops acc s0 = Raise e s' \<and> pushed s' = pushed s0"
    using step_Raise_trace [of ops acc s0 e s'] by (auto simp: pushed_def)
  note od = onData_Raised [OF r assms]
  show "onData ops acc s =
        s'\<lparr>trace := trace s' @ [Emit (ErrorEvent e), SocketEnd],
            endCallbacks := endCallbacks s' + 1\<rparr>"
    by (rule od)
  show "pushed (onData ops acc s) = pushed s'"
    by (simp add: od pushed_def payloads_append)
  show "trace (socket_finished (onData ops acc s)) =
        trace s' @ [Emit (ErrorEvent e), SocketEnd] @
          replicate (endCallbacks s' + 1) (Emit Close)"
    by (simp add: od socket_finished_def)
  show "trace (onSocketEvent Close (socket_finished (onData ops acc s))) =
        trace s' @ [Emit (ErrorEvent e), SocketEnd] @
          replicate (endCallbacks s' + 1) (Emit Close) @ [Emit Close]"
    by (simp add: od socket_finished_def onSocketEvent_def emit_def notify_def)
  show "pushed (onSocketEvent Close (socket_finished (onData ops acc s))) = pushed s'"
    by (simp add: od socket_finished_def onSocketEvent_def emit_def notify_def pushed_def
          payloads_append)
next
  assume "readState s = AWAITING_HANDSHAKE_REPLY \<and> stream_read 50 s = Some (m, rest) \<and>
      initiatorAct2 ops (noiseState s) m = (Inl e, n1)"
  then show "loop ops acc s = Raised e (s\<lparr>rbuf := rest, noiseState := n1\<rparr>)"
    by (simp add: loop.simps [of ops acc s] step_def processHandshakeReply_def)
next
  assume "readState s = AWAITING_HANDSHAKE_REPLY \<and> stream_read 50 s = Some (m, rest) \<and>
      initiatorAct2 ops (noiseState s) m = (Inr u, n1) \<and>
      initiatorAct3 ops n1 = (Inl e, n2)"
  then show "loop ops acc s = Raised e (s\<lparr>rbuf := rest, noiseState := n2\<rparr>)"
    by (simp add: loop.simps [of ops acc s] step_def processHandshakeReply_def)
next
  assume "readState s = READY_FOR_LEN \<and> stream_read 18 s = Some (m, rest) \<and>
      decryptLength ops (noiseState s) m = (Inl e, n1)"
  then show "loop ops acc s = Raised e (s\<lparr>rbuf := rest, noiseState := n1\<rparr>)"
    by (simp add: loop.simps [of ops acc s] step_def processPacketLength_def)
next
  assume "readState s = READY_FOR_BODY \<and> read_body (lenCache s) s = Some (m, rest) \<and>
      decryptMessage ops (noiseState s) m = (Inl e, n1)"
  then show "loop ops acc s = Raised e (s\<lparr>rbuf := rest, noiseState := n1\<rparr>)"
    by (simp add: loop.simps [of ops acc s] step_def processPacketBody_def)
qed

theorem inbound_error_witness:
  "errorListener (feed bad_header idle_socket) \<and>
   loop null_ops accept_all (feed bad_header idle_socket) = Raised AeadTagFailure idle_socket \<and>
   trace (onSocketEvent Close
       (socket_finished (onData null_ops accept_all (feed bad_header idle_socket)))) =
     trace idle_socket @ [Emit (ErrorEvent AeadTagFailure), SocketEnd, Emit Close, Emit Close] \<and>
   pushed (onSocketEvent Close
       (socket_finished (onData null_ops accept_all (feed bad_header idle_socket)))) = [] \<and>
   loop null_ops accept_all (feed (replicate 50 1) awaiting_socket) =
     Raised HandshakeFailure awaiting_socket"
proof -
  have h: "errorListener (feed bad_header idle_socket)"
    by (simp add: feed_def idle_socket_eq)
  have h2: "errorListener (feed (replicate 50 1) awaiting_socket)"
    by (simp add: feed_def awaiting_socket_eq)
  have l: "loop null_ops accept_all (feed bad_header idle_socket) =
             Raised AeadTagFailure idle_socket"
    by (simp add: loop.simps step_defs run_defs null_defs)
  have r2: "readState (feed (replicate 50 1) awaiting_socket) = AWAITING_HANDSHAKE_REPLY \<and>
      stream_read 50 (feed (replicate 50 1) awaiting_socket) = Some (replicate 50 1, []) \<and>
      initiatorAct2 null_ops (noiseState (feed (replicate 50 1) awaiting_socket))
        (replicate 50 1) = (Inl HandshakeFailure, 0)"
    by (simp add: feed_def awaiting_socket_eq read_defs null_ops_def)
  have e2: "(feed (replicate 50 1) awaiting_socket)\<lparr>rbuf := [], noiseState := 0\<rparr> =
      awaiting_socket"
    by (simp add: feed_def awaiting_socket_eq)
  from inbound_error_terminates [OF h, of null_ops accept_all AeadTagFailure idle_socket] l
  have "trace (onSocketEvent Close
           (socket_finished (onData null_ops accept_all (feed bad_header idle_socket)))) =
          trace idle_socket @ [Emit (ErrorEvent AeadTagFailure), SocketEnd] @
            replicate (endCallbacks idle_socket + 1) (Emit Close) @ [Emit Close] \<and>
        pushed (onSocketEvent Close
           (socket_finished (onData null_ops accept_all (feed bad_header idle_socket)))) =
          pushed idle_socket"
    by blast
  moreover from inbound_error_terminates [OF h2, of null_ops accept_all HandshakeFailure
      awaiting_socket "replicate 50 1" "[]" 0] r2 e2
  have "loop null_ops accept_all (feed (replicate 50 1) awaiting_socket) =
          Raised HandshakeFailure awaiting_socket"
    by simp
  ultimately show ?thesis using h l by (simp add: idle_socket_eq pushed_def)
qed

text \<open>
  While the stream has not ended, a read attempt in the state
  \<open>AWAITING_HANDSHAKE_REPLY\<close> with fewer than 50 buffered bytes changes nothing. With 50
  bytes or more, and when acts 2 and 3 do not throw, the pass takes exactly 50 bytes off
  the buffer, processes act 2 on them, builds act 3 from the resulting noise state,
  writes it to the stream, sets the read state to \<open>READY_FOR_LEN\<close> and emits \<^verbatim>\<open>connect\<close>
  and \<^verbatim>\<open>ready\<close>, in this order, and asks for another pass.
\<close>

theorem handshake_reply_order:
  "readState s = AWAITING_HANDSHAKE_REPLY \<Longrightarrow>
     (\<not> ended s \<and> length (rbuf s) < 50 \<longrightarrow> onData ops acc s = s) \<and>
     (50 \<le> length (rbuf s) \<and>
      initiatorAct2 ops (noiseState s) (take 50 (rbuf s)) = (Inr u, n1) \<and>
      initiatorAct3 ops n1 = (Inr m3, n2) \<longrightarrow>
        step ops acc s =
          Continue (s\<lparr>readState := READY_FOR_LEN, noiseState := n2, rbuf := drop 50 (rbuf s),
                      trace := trace s @ [SocketWrite m3, SetReadState READY_FOR_LEN,
                                          Emit Connect, Emit Ready]\<rparr>))"
  by (auto simp: onData_def loop.simps [of ops acc s] step_defs)

theorem handshake_reply_witness:
  "readState awaiting_socket = AWAITING_HANDSHAKE_REPLY \<and>
   onData null_ops accept_all (feed (replicate 49 0) awaiting_socket) =
     feed (replicate 49 0) awaiting_socket \<and>
   step null_ops accept_all (feed (replicate 50 0) awaiting_socket) =
     Continue (awaiting_socket\<lparr>readState := READY_FOR_LEN,
       trace := trace awaiting_socket @
         [SocketWrite (replicate 66 0), SetReadState READY_FOR_LEN, Emit Connect, Emit Ready]\<rparr>)"
  using handshake_reply_order [of "feed (replicate 49 0) awaiting_socket" null_ops accept_all
      "()" 0 "replicate 66 0" 0]
    handshake_reply_order [of "feed (replicate 50 0) awaiting_socket" null_ops accept_all
      "()" 0 "replicate 66 0" 0]
  by (simp add: awaiting_socket_eq feed_def null_ops_def)

text \<open>
  In every reachable state \<^verbatim>\<open>messagesReceived\<close> is the number of payloads
  pushed upstream.
\<close>

theorem messagesReceived_counts_pushes:
  "reachable ops s \<Longrightarrow> messagesReceived s = length (pushed s)"
proof (induction rule: reachable.induct)
  case (r_new ns ini)
  show ?case by (simp add: new_socket_def pushed_def)
next
  case (r_listen s)
  then show ?case by (simp add: add_error_listener_def pushed_def)
next
  case (r_connect s)
  then show ?case
    by (auto simp: onConnected_def initiateHandshake_def settle_terminate end_socket_def
          notify_def uncaught_def set_readState_def socket_write_def pushed_def
          payloads_append
        split: prod.splits sum.splits)
next
  case (r_readable s acc chunk)
  then have "messagesReceived (feed chunk s) = length (pushed (feed chunk s))"
    by (simp add: feed_def pushed_def)
  then show ?case unfolding onReadable_def by (rule onData_received)
next
  case (r_eof s acc)
  then have "messagesReceived (s\<lparr>ended := True\<rparr>) = length (pushed (s\<lparr>ended := True\<rparr>))"
    by (simp add: pushed_def)
  then show ?case unfolding onEnd_def by (rule onData_received)
next
  case (r_read s acc)
  then have "messagesReceived (read_unblock s) = length (pushed (read_unblock s))"
    by (simp add: read_unblock_def set_readState_def pushed_def payloads_append)
  then show ?case unfolding read_op_def by (rule onData_received)
next
  case (r_write s data)
  then show ?case
    by (auto simp: write_op_def private_write_def socket_write_def pushed_def payloads_append
        split: prod.splits sum.splits)
next
  case (r_end s)
  then show ?case by (simp add: end_socket_def pushed_def payloads_append)
next
  case (r_finished s)
  then show ?case by (simp add: socket_finished_def pushed_def payloads_append)
next
  case (r_forward s ev)
  then show ?case
    by (simp add: onSocketEvent_def emit_def notify_def uncaught_def pushed_def
          payloads_append split: event.splits)
qed

theorem messagesReceived_witness:
  "reachable null_ops (onReadable null_ops accept_all good_body body_wait) \<and>
   messagesReceived (onReadable null_ops accept_all good_body body_wait) = 1 \<and>
   pushed (onReadable null_ops accept_all good_body body_wait) = [[104]]"
proof -
  have r: "reachable null_ops (onReadable null_ops accept_all good_body body_wait)"
    using body_wait_reachable by (rule reachable.r_readable) (simp add: body_wait_eq)
  have p: "pushed (onReadable null_ops accept_all good_body body_wait) = [[104]]"
    by (simp add: body_wait_eq loop.simps step_defs run_defs null_defs)
  from messagesReceived_counts_pushes [OF r] r p show ?thesis by simp
qed

text \<open>
  \<^verbatim>\<open>_write\<close> writes to the stream exactly when \<^verbatim>\<open>encryptMessage\<close> returns,
  and then once, the bytes it returned; when \<^verbatim>\<open>encryptMessage\<close> throws, the error goes
  to the caller and nothing is written. It checks no length of its own: the payload goes
  to \<^verbatim>\<open>encryptMessage\<close> as it is. Neither way touches the read state. \<^verbatim>\<open>write\<close> hands
  the payload to \<^verbatim>\<open>_write\<close> when no write is pending, and buffers it otherwise.
\<close>

theorem write_writes_what_encrypt_returns:
  "(private_write ops data s = Raised e s' \<longrightarrow>
      fst (encryptMessage ops (noiseState s) data) = Inl e \<and> trace s' = trace s \<and>
      readState s' = readState s) \<and>
   (private_write ops data s = Done s' \<longrightarrow>
      (\<exists>c. fst (encryptMessage ops (noiseState s) data) = Inr c \<and>
           trace s' = trace s @ [SocketWrite c]) \<and>
      readState s' = readState s \<and> rbuf s' = rbuf s) \<and>
   (\<not> writing s \<longrightarrow> write_op ops data s = private_write ops data (s\<lparr>writing := True\<rparr>)) \<and>
   (writing s \<longrightarrow> write_op ops data s = Done (s\<lparr>writeBuffer := writeBuffer s @ [data]\<rparr>))"
  by (auto simp: write_op_def private_write_def socket_write_def
      split: prod.splits sum.splits)

theorem write_writes_witness:
  "private_write null_ops [104] idle_socket =
     Done (idle_socket\<lparr>noiseState := 2,
            trace := trace idle_socket @ [SocketWrite (good_header @ good_body)]\<rparr>) \<and>
   \<not> writing idle_socket"
  using write_writes_what_encrypt_returns [of null_ops "[104]" idle_socket AeadTagFailure
      "idle_socket\<lparr>noiseState := 2,
         trace := trace idle_socket @ [SocketWrite (good_header @ good_body)]\<rparr>"]
  by (simp add: private_write_def socket_write_def u16be_def null_defs)

end
